theory Spec2Isabelle
  imports Complex_Main
begin

section \<open>splitspeech: segmentation and normalisation of a mono waveform\<close>

text \<open>
  A shallow embedding of \<^verbatim>\<open>segment.cpp\<close>, \<^verbatim>\<open>normalize.cpp\<close> and the parts of
  \<^verbatim>\<open>waveform.cpp\<close> they use.

  \<^item> \<^verbatim>\<open>float\<close> samples are real numbers: rounding, infinities and NaN are not part of the
    model. The concrete inputs below are floats (0, 1/2, 1, ...); where a constant of the
    source is no float (\<open>1.05\<close>, \<open>0.05\<close>, \<open>0.02\<close>) the float result is off by a rounding
    error that is far from every comparison made on it.
  \<^item> \<^verbatim>\<open>unsigned\<close> is a natural number below \<open>2 ^ 32\<close>; the source's casts and unsigned
    subtractions are written out with their wrap-around (\<open>u32\<close>, \<open>u32_sub\<close>), and
    \<^verbatim>\<open>static_cast<int>\<close> as the two's-complement reading \<open>i32\<close>.
  \<^item> Undefined behaviour of the source is a value: an integer division by zero is
    \<open>Inl DivideByZero\<close>, an index outside a vector is \<open>Inl OutOfBounds\<close>, a
    float-to-integer cast whose value the target type cannot hold is \<open>Inl CastOutOfRange\<close>.
    A loop that cannot end is \<open>Inl NoReturn\<close>.
\<close>

subsection \<open>Data\<close>

text \<open>\<^verbatim>\<open>class Waveform\<close> (waveform.h): the sample frequency and the buffer of samples.\<close>

record Waveform =
  m_frequency :: nat
  m_data :: "real list"

text \<open>\<^verbatim>\<open>Segment\<close>: first sample and number of samples of a non-silent stretch.\<close>

record Segment =
  m_start :: nat
  m_count :: nat

datatype error = DivideByZero | OutOfBounds | CastOutOfRange | NoReturn

subsection \<open>Machine integers\<close>

definition u32 :: "nat \<Rightarrow> nat" where
  "u32 n = n mod 2 ^ 32"

definition u32_sub :: "nat \<Rightarrow> nat \<Rightarrow> nat" where
  "u32_sub a b = nat ((int a - int b) mod 2 ^ 32)"

definition i32 :: "nat \<Rightarrow> int" where
  "i32 n = (if n mod 2 ^ 32 < 2 ^ 31 then int (n mod 2 ^ 32) else int (n mod 2 ^ 32) - 2 ^ 32)"

subsection \<open>Counting loops\<close>

text \<open>
  \<^verbatim>\<open>for (i = 0; i < n; i++) body\<close> is \<open>for_loop body [0..<n]\<close> on the variables the body
  updates; it stops at the first pass that fails.
\<close>

fun for_loop :: "(nat \<Rightarrow> 's \<Rightarrow> error + 's) \<Rightarrow> nat list \<Rightarrow> 's \<Rightarrow> error + 's" where
  "for_loop body [] st = Inr st"
| "for_loop body (i # rest) st =
     (case body i st of Inl e \<Rightarrow> Inl e | Inr st' \<Rightarrow> for_loop body rest st')"

subsection \<open>waveform.cpp\<close>

definition FLT_MAX :: real where
  "FLT_MAX = 340282346638528859811704183484516925440"

text \<open>
  \<^verbatim>\<open>Waveform::FindMinMaxSamples\<close>: the pair \<open>(smin, smax)\<close> of the two out-parameters. The
  loop counter is an \<^verbatim>\<open>unsigned\<close> compared with the size of the vector: on \<open>2 ^ 32\<close> samples
  or more it wraps to 0 before it reaches the size, and the loop does not end.
\<close>

definition FindMinMaxSamples :: "Waveform \<Rightarrow> error + real \<times> real" where
  "FindMinMaxSamples wav =
     (if m_data wav = [] then Inr (0, 0)
      else if 2 ^ 32 \<le> length (m_data wav) then Inl NoReturn
      else Inr (fold (\<lambda>x (smin, smax).
                        (if x < smin then x else smin, if x > smax then x else smax))
                  (m_data wav) (FLT_MAX, - FLT_MAX)))"

subsection \<open>segment.cpp\<close>

text \<open>\<^verbatim>\<open>standard_deviation(data, count)\<close>, on the list of the \<open>count\<close> values read.\<close>

definition standard_deviation :: "real list \<Rightarrow> real" where
  "standard_deviation xs =
     (if length xs < 1 then 0
      else
        let sum = fold (\<lambda>x s. s + x) xs 0;
            mean = sum / real (length xs);
            v = fold (\<lambda>x v. v + (x - mean) ^ 2) xs 0
        in sqrt (v / real (length xs)))"

text \<open>The \<open>count\<close> samples from index \<open>isample\<close> on, when they all lie in the buffer.\<close>

definition chunk_at :: "real list \<Rightarrow> nat \<Rightarrow> nat \<Rightarrow> error + real list" where
  "chunk_at xs isample count =
     (if isample + count \<le> length xs then Inr (take count (drop isample xs))
      else Inl OutOfBounds)"

text \<open>The first loop of \<^verbatim>\<open>FindSegmentsInAudioWaveform\<close>: one standard deviation per chunk.\<close>

fun stddev_chunks :: "real list \<Rightarrow> nat \<Rightarrow> nat list \<Rightarrow> error + real list" where
  "stddev_chunks xs spc [] = Inr []"
| "stddev_chunks xs spc (ichunk # rest) =
     (case chunk_at xs (u32 (ichunk * spc)) spc of
        Inl e \<Rightarrow> Inl e
      | Inr c \<Rightarrow>
          (case stddev_chunks xs spc rest of
             Inl e \<Rightarrow> Inl e
           | Inr sds \<Rightarrow> Inr (standard_deviation c # sds)))"

definition recent_count :: nat where "recent_count = 10"
definition louds_to_start :: nat where "louds_to_start = 3"
definition quiets_to_stop :: nat where "quiets_to_stop = 8"

text \<open>
  The inner loop \<^verbatim>\<open>for (int j = tick; j > static_cast<int>(tick - recent_count); j--)\<close>
  with the counters \<open>(recent_quiet, recent_loud)\<close>; \<open>bound\<close> is the value of the cast.
\<close>

function recent_loop :: "real list \<Rightarrow> real \<Rightarrow> int \<Rightarrow> int \<Rightarrow> nat \<times> nat \<Rightarrow> error + nat \<times> nat" where
  "recent_loop sd thr bound j (rq, rl) =
     (if j > bound then
        (if j > 0 then
           (if nat j < length sd then
              (if sd ! nat j < thr then recent_loop sd thr bound (j - 1) (rq + 1, rl)
               else recent_loop sd thr bound (j - 1) (rq, rl + 1))
            else Inl OutOfBounds)
         else recent_loop sd thr bound (j - 1) (rq + 1, rl))
      else Inr (rq, rl))"
  by pat_completeness auto
termination
  by (relation "measure (\<lambda>(sd, thr, bound, j, c). nat (j - bound))") auto

declare recent_loop.simps [simp del]

definition recent_counts :: "real list \<Rightarrow> real \<Rightarrow> nat \<Rightarrow> error + nat \<times> nat" where
  "recent_counts sd thr tick =
     recent_loop sd thr (i32 (u32_sub tick recent_count)) (i32 tick) (0, 0)"

text \<open>One pass of the tick loop, on the state \<open>(list, segment_started_tick)\<close>.\<close>

definition tick_body ::
  "real list \<Rightarrow> real \<Rightarrow> nat \<Rightarrow> nat \<Rightarrow> nat \<Rightarrow> Segment list \<times> nat \<Rightarrow> error + Segment list \<times> nat" where
  "tick_body sd thr spc num_chunks tick st =
     (case st of (lst, segment_started_tick) \<Rightarrow>
      (case recent_counts sd thr tick of
         Inl e \<Rightarrow> Inl e
       | Inr (recent_quiet, recent_loud) \<Rightarrow>
           if segment_started_tick = 0 \<and> recent_loud \<ge> louds_to_start then
             Inr (lst, u32_sub tick recent_loud)
           else if segment_started_tick \<noteq> 0 \<and>
                   (recent_quiet \<ge> quiets_to_stop \<or> tick = u32_sub num_chunks 1) then
             Inr (lst @ [\<lparr>m_start = u32 (segment_started_tick * spc),
                          m_count = u32 (u32_sub tick segment_started_tick * spc)\<rparr>], 0)
           else Inr (lst, segment_started_tick)))"

text \<open>
  \<^verbatim>\<open>static_cast<unsigned>(wav.m_frequency * 0.05)\<close>: the product is taken in double
  precision, where it truncates to \<open>m_frequency div 20\<close> for every 32-bit frequency.
\<close>

definition segment_samples_per_chunk :: "Waveform \<Rightarrow> nat" where
  "segment_samples_per_chunk wav = m_frequency wav div 20"

definition FindSegmentsInAudioWaveform :: "Waveform \<Rightarrow> error + Segment list" where
  "FindSegmentsInAudioWaveform wav =
     (let samples_per_chunk = segment_samples_per_chunk wav in
      if samples_per_chunk = 0 then Inl DivideByZero
      else
        let num_chunks = u32 (length (m_data wav) div samples_per_chunk) in
        case stddev_chunks (m_data wav) samples_per_chunk [0..<num_chunks] of
          Inl e \<Rightarrow> Inl e
        | Inr stddev_per_chunk \<Rightarrow>
            (case FindMinMaxSamples wav of
               Inl e \<Rightarrow> Inl e
             | Inr (sample_min, sample_max) \<Rightarrow>
                 let sample_peak = (sample_max - sample_min) / 2;
                     stddev_threshold = sample_peak * 0.05
                 in (case for_loop (tick_body stddev_per_chunk stddev_threshold
                                      samples_per_chunk num_chunks) [0..<num_chunks] ([], 0) of
                       Inl e \<Rightarrow> Inl e
                     | Inr (lst, segment_started_tick) \<Rightarrow> Inr lst)))"

subsection \<open>The segmenter on the program state\<close>

text \<open>
  \<^verbatim>\<open>FindSegmentsInAudioWaveform\<close> once more, as a function on the state it runs in: the
  waveform its reference parameter points to, and its local variables. Every statement of
  the function is a function from the state to the state; the result is the list and the
  waveform as the function leaves it.
\<close>

record segmenter_state =
  s_wav :: Waveform
  s_stddev_per_chunk :: "real list"
  s_list :: "Segment list"
  s_segment_started_tick :: nat

text \<open>
  \<^verbatim>\<open>stddev_per_chunk[ichunk] = standard_deviation(&wav.m_data[isample], samples_per_chunk)\<close>
\<close>

definition stddev_pass :: "nat \<Rightarrow> nat \<Rightarrow> segmenter_state \<Rightarrow> error + segmenter_state" where
  "stddev_pass spc ichunk st =
     (case chunk_at (m_data (s_wav st)) (u32 (ichunk * spc)) spc of
        Inl e \<Rightarrow> Inl e
      | Inr c \<Rightarrow>
          if ichunk < length (s_stddev_per_chunk st) then
            Inr (st\<lparr>s_stddev_per_chunk := (s_stddev_per_chunk st)[ichunk := standard_deviation c]\<rparr>)
          else Inl OutOfBounds)"

definition tick_pass ::
  "real \<Rightarrow> nat \<Rightarrow> nat \<Rightarrow> nat \<Rightarrow> segmenter_state \<Rightarrow> error + segmenter_state" where
  "tick_pass thr spc num_chunks tick st =
     (case tick_body (s_stddev_per_chunk st) thr spc num_chunks tick
             (s_list st, s_segment_started_tick st) of
        Inl e \<Rightarrow> Inl e
      | Inr (lst, started) \<Rightarrow> Inr (st\<lparr>s_list := lst, s_segment_started_tick := started\<rparr>))"

definition FindSegmentsInAudioWaveform_st :: "Waveform \<Rightarrow> error + Segment list \<times> Waveform" where
  "FindSegmentsInAudioWaveform_st wav =
     (let st = \<lparr>s_wav = wav, s_stddev_per_chunk = [], s_list = [], s_segment_started_tick = 0\<rparr>;
          samples_per_chunk = segment_samples_per_chunk (s_wav st)
      in if samples_per_chunk = 0 then Inl DivideByZero
         else
           let num_chunks = u32 (length (m_data (s_wav st)) div samples_per_chunk);
               st = st\<lparr>s_stddev_per_chunk := replicate num_chunks 0\<rparr>
           in (case for_loop (stddev_pass samples_per_chunk) [0..<num_chunks] st of
                 Inl e \<Rightarrow> Inl e
               | Inr st \<Rightarrow>
                   (case FindMinMaxSamples (s_wav st) of
                      Inl e \<Rightarrow> Inl e
                    | Inr (sample_min, sample_max) \<Rightarrow>
                        let sample_peak = (sample_max - sample_min) / 2;
                            stddev_threshold = sample_peak * 0.05
                        in (case for_loop (tick_pass stddev_threshold samples_per_chunk num_chunks)
                                   [0..<num_chunks] st of
                              Inl e \<Rightarrow> Inl e
                            | Inr st \<Rightarrow> Inr (s_list st, s_wav st)))))"

subsection \<open>normalize.cpp\<close>

definition db_to_linear :: "real \<Rightarrow> real" where
  "db_to_linear db = 10 powr (db / 20)"

text \<open>
  One pass of the peak loop, on \<open>local_peak\<close>. The index \<^verbatim>\<open>isample + subsample\<close> is a sum of
  two \<^verbatim>\<open>unsigned\<close>.
\<close>

definition peak_sample :: "real list \<Rightarrow> nat \<Rightarrow> nat \<Rightarrow> real \<Rightarrow> error + real" where
  "peak_sample xs isample subsample local_peak =
     (let i = u32 (isample + subsample)
      in if i < length xs then
           (let vol = \<bar>xs ! i\<bar> in Inr (if vol > local_peak then vol else local_peak))
         else Inl OutOfBounds)"

text \<open>\<^verbatim>\<open>if (local_peak < max_vol && gain < 100.0f) gain *= 1.05f;\<close>\<close>

definition release_gain :: "real \<Rightarrow> real \<Rightarrow> real \<Rightarrow> real" where
  "release_gain max_vol local_peak gain =
     (if local_peak < max_vol \<and> gain < 100 then gain * 1.05 else gain)"

text \<open>\<^verbatim>\<open>if (local_peak * gain > max_vol) { ... }\<close>\<close>

definition attack_gain :: "real \<Rightarrow> real \<Rightarrow> real \<Rightarrow> real" where
  "attack_gain max_vol local_peak gain =
     (if local_peak * gain > max_vol then
        (if local_peak < 0.02 then max_vol / 0.02 else max_vol / local_peak)
      else gain)"

text \<open>\<^verbatim>\<open>wav.m_data[isample + subsample] *= gain\<close>, one pass of the last loop.\<close>

definition scale_sample :: "real \<Rightarrow> nat \<Rightarrow> nat \<Rightarrow> real list \<Rightarrow> error + real list" where
  "scale_sample gain isample subsample xs =
     (if isample + subsample < length xs
      then Inr (xs[isample + subsample := xs ! (isample + subsample) * gain])
      else Inl OutOfBounds)"

text \<open>
  \<^verbatim>\<open>count\<close>: how many samples the pass for \<open>chunk\<close> scales, from \<open>isample\<close> on, in a
  buffer of \<open>n\<close> samples.
\<close>

definition pass_count :: "nat \<Rightarrow> nat \<Rightarrow> nat \<Rightarrow> nat \<Rightarrow> nat \<Rightarrow> nat" where
  "pass_count spc num_chunks n chunk isample =
     (if chunk = u32_sub num_chunks 1 then n - isample else spc)"

text \<open>One pass of the chunk loop, on the state \<open>(gain, m_data)\<close>.\<close>

definition normalize_chunk ::
  "real \<Rightarrow> nat \<Rightarrow> nat \<Rightarrow> nat \<Rightarrow> real \<times> real list \<Rightarrow> error + real \<times> real list" where
  "normalize_chunk max_vol spc num_chunks chunk st =
     (case st of (gain, xs) \<Rightarrow>
        let isample = u32 (chunk * spc) in
        (case for_loop (peak_sample xs isample) [0..<spc] 0 of
           Inl e \<Rightarrow> Inl e
         | Inr local_peak \<Rightarrow>
             let gain = release_gain max_vol local_peak gain;
                 gain = attack_gain max_vol local_peak gain;
                 count = pass_count spc num_chunks (length xs) chunk isample
             in (case for_loop (scale_sample gain isample) [0..<count] xs of
                   Inl e \<Rightarrow> Inl e
                 | Inr xs' \<Rightarrow> Inr (gain, xs'))))"

text \<open>
  \<^verbatim>\<open>static_cast<unsigned>(wav.m_frequency * 0.01f)\<close> is computed in single precision: the
  frequency is converted to \<^verbatim>\<open>float\<close>, multiplied by the \<^verbatim>\<open>float\<close> nearest to 0.01, which is
  \<open>10737418 / 2 ^ 30\<close>, and the product is truncated. Both the conversion and the product
  round to 24 significant bits, to the nearest value and to the even one on a tie.
  \<open>bit_length n\<close> is the number of binary digits of \<open>n\<close>, \<open>round_to_24_bits n\<close> the
  rounding of the natural number \<open>n\<close>; a scaling by \<open>2 ^ 30\<close> does not change the rounding.
  The result is \<open>m_frequency div 100\<close> up to \<open>2 ^ 24\<close> Hz and can be one more above
  (167773 at 16777299 Hz).
\<close>

fun bit_length :: "nat \<Rightarrow> nat" where
  "bit_length n = (if n = 0 then 0 else Suc (bit_length (n div 2)))"

declare bit_length.simps [simp del]

definition round_to_24_bits :: "nat \<Rightarrow> nat" where
  "round_to_24_bits n =
     (let e = bit_length n - 24;
          q = n div 2 ^ e;
          r = n mod 2 ^ e;
          half = 2 ^ e div 2
      in if e = 0 then n
         else if r > half \<or> (r = half \<and> odd q) then (q + 1) * 2 ^ e
         else q * 2 ^ e)"

definition normalize_samples_per_chunk :: "Waveform \<Rightarrow> nat" where
  "normalize_samples_per_chunk wav =
     round_to_24_bits (round_to_24_bits (m_frequency wav) * 10737418) div 2 ^ 30"

text \<open>The chunk loop from \<open>gain = 1\<close>, stopped after the chunks in \<open>chunks\<close>.\<close>

definition normalize_chunks ::
  "real \<Rightarrow> nat \<Rightarrow> real list \<Rightarrow> nat list \<Rightarrow> error + real \<times> real list" where
  "normalize_chunks max_vol spc xs chunks =
     for_loop (normalize_chunk max_vol spc (u32 (length xs div spc))) chunks (1, xs)"

definition NormalizeAudioWaveform :: "Waveform \<Rightarrow> real \<Rightarrow> error + Waveform" where
  "NormalizeAudioWaveform wav db_level =
     (if m_data wav = [] then Inr wav
      else
        let max_vol = db_to_linear db_level;
            samples_per_chunk = normalize_samples_per_chunk wav
        in if samples_per_chunk = 0 then Inl DivideByZero
           else
             let num_chunks = u32 (length (m_data wav) div samples_per_chunk) in
             (case normalize_chunks max_vol samples_per_chunk (m_data wav) [0..<num_chunks] of
                Inl e \<Rightarrow> Inl e
              | Inr (gain, xs) \<Rightarrow> Inr (wav\<lparr>m_data := xs\<rparr>)))"

subsection \<open>Waveform::WriteToWAVFile\<close>

text \<open>
  \<^verbatim>\<open>static_cast<int16_t>(x)\<close> of a float: the fractional part is discarded (truncation
  towards zero); the cast is undefined when the truncated value is no 16-bit integer.
\<close>

definition float_to_int16 :: "real \<Rightarrow> error + int" where
  "float_to_int16 x =
     (let t = (if x < 0 then \<lceil>x\<rceil> else \<lfloor>x\<rfloor>)
      in if - 32768 \<le> t \<and> t \<le> 32767 then Inr t else Inl CastOutOfRange)"

text \<open>\<^verbatim>\<open>samples[isample] = static_cast<int16_t>(m_data[start_sample + isample] * 32768)\<close>\<close>

definition convert_sample :: "real list \<Rightarrow> nat \<Rightarrow> nat \<Rightarrow> int list \<Rightarrow> error + int list" where
  "convert_sample xs start_sample isample samples =
     (if start_sample + isample < length xs \<and> isample < length samples then
        (case float_to_int16 (xs ! (start_sample + isample) * 32768) of
           Inl e \<Rightarrow> Inl e
         | Inr v \<Rightarrow> Inr (samples[isample := v]))
      else Inl OutOfBounds)"

text \<open>
  \<^verbatim>\<open>Waveform::WriteToWAVFile\<close> up to its call of \<^verbatim>\<open>WAVFileWrite\<close>: \<open>Inr None\<close> is
  \<^verbatim>\<open>return false\<close>, \<open>Inr (Some samples)\<close> the 16-bit samples handed to \<^verbatim>\<open>WAVFileWrite\<close>.
  \<open>has_filename\<close> says that the file name is not null.
\<close>

definition WriteToWAVFile :: "Waveform \<Rightarrow> bool \<Rightarrow> nat \<Rightarrow> nat \<Rightarrow> error + int list option" where
  "WriteToWAVFile wav has_filename start_sample num_samples =
     (if \<not> has_filename \<or> m_data wav = [] then Inr None
      else if start_sample \<ge> length (m_data wav) then Inr None
      else
        let num_samples =
              (if num_samples = 0 then u32 (length (m_data wav) - start_sample) else num_samples)
        in if u32 (start_sample + num_samples) > length (m_data wav) then Inr None
           else
             (case for_loop (convert_sample (m_data wav) start_sample) [0..<num_samples]
                     (replicate num_samples 0) of
                Inl e \<Rightarrow> Inl e
              | Inr samples \<Rightarrow> Inr (Some samples)))"

subsection \<open>Notions used in the statements\<close>

text \<open>
  How the inner loop of the segmenter classifies the window position \<open>j\<close>: loud when
  \<open>j > 0\<close> and the standard deviation of chunk \<open>j\<close> is not below the threshold, quiet
  otherwise. \<open>loud_in_window\<close> counts the loud ones among \<open>tick - 9, ..., tick\<close>.
\<close>

definition window_loud :: "real list \<Rightarrow> real \<Rightarrow> int \<Rightarrow> bool" where
  "window_loud sd thr j = (0 < j \<and> \<not> sd ! nat j < thr)"

definition loud_in_window :: "real list \<Rightarrow> real \<Rightarrow> nat \<Rightarrow> nat" where
  "loud_in_window sd thr tick = length (filter (window_loud sd thr) [int tick - 9..int tick])"

text \<open>
  The classification as the specification words it: only the positions of index below 0
  are quiet by convention, every position from 0 on is compared with the threshold.
\<close>

definition claimed_window_loud :: "real list \<Rightarrow> real \<Rightarrow> int \<Rightarrow> bool" where
  "claimed_window_loud sd thr j = (0 \<le> j \<and> \<not> sd ! nat j < thr)"

definition claimed_loud_in_window :: "real list \<Rightarrow> real \<Rightarrow> nat \<Rightarrow> nat" where
  "claimed_loud_in_window sd thr tick =
     length (filter (claimed_window_loud sd thr) [int tick - 9..int tick])"



text \<open>
  What the tick loop keeps true of its state before the pass for chunk \<open>k\<close>, at every buffer
  size: an open segment started before chunk \<open>k\<close>, and every closed segment has a positive
  count and ends at or before chunk \<open>k\<close>.
\<close>

definition tick_wf :: "nat \<Rightarrow> nat \<Rightarrow> Segment list \<times> nat \<Rightarrow> bool" where
  "tick_wf spc k st =
     (case st of (lst, started) \<Rightarrow>
        (started \<noteq> 0 \<longrightarrow> started < k) \<and>
        (\<forall>seg \<in> set lst. 0 < m_count seg \<and> m_start seg + m_count seg \<le> k * spc))"

text \<open>The largest absolute value of a list of samples, 0 for no sample.\<close>

definition chunk_peak :: "real list \<Rightarrow> real" where
  "chunk_peak c =
     fold (\<lambda>x local_peak. let vol = \<bar>x\<bar> in if vol > local_peak then vol else local_peak) c 0"

text \<open>
  The gain of the normalizer after \<open>k\<close> chunks, written from the samples of the buffer as
  it was before the pass: the peak of chunk \<open>k\<close> is taken over its \<open>spc\<close> samples, then
  the release and the attack step of the loop are applied.
\<close>

fun gain_after :: "real \<Rightarrow> nat \<Rightarrow> real list \<Rightarrow> nat \<Rightarrow> real" where
  "gain_after max_vol spc xs 0 = 1"
| "gain_after max_vol spc xs (Suc k) =
     (let local_peak = chunk_peak (take spc (drop (k * spc) xs))
      in attack_gain max_vol local_peak
           (release_gain max_vol local_peak (gain_after max_vol spc xs k)))"

text \<open>
  The invariant of the chunk loop before the pass for chunk \<open>k\<close> of \<open>nc\<close>: the length is
  that of the buffer \<open>xs\<close> the pass started from, the gain is \<open>gain_after k\<close>, the samples of
  the chunks already passed (all samples, once the last chunk is done) carry the gain of
  their chunk, and the others are as they were.
\<close>

definition chunk_inv ::
  "real \<Rightarrow> nat \<Rightarrow> nat \<Rightarrow> real list \<Rightarrow> nat \<Rightarrow> real \<times> real list \<Rightarrow> bool" where
  "chunk_inv max_vol spc nc xs k st =
     (case st of (gain, ys) \<Rightarrow>
        length ys = length xs \<and> gain = gain_after max_vol spc xs k \<and>
        (\<forall>i<length xs.
           ys ! i =
             (if i < k * spc \<or> (k = nc \<and> 0 < nc)
              then xs ! i * gain_after max_vol spc xs (Suc (min (i div spc) (nc - 1)))
              else xs ! i)))"

section \<open>Loops, machine integers and the window of the segmenter\<close>

lemma for_loop_append:
  "for_loop body (xs @ ys) st =
     (case for_loop body xs st of Inl e \<Rightarrow> Inl e | Inr st' \<Rightarrow> for_loop body ys st')"
  by (induction xs arbitrary: st) (auto split: sum.splits)

text \<open>Total correctness: an invariant that every pass keeps, and no pass fails.\<close>

lemma for_loop_total:
  assumes "P 0 st"
    and "\<And>k s. k < n \<Longrightarrow> P k s \<Longrightarrow> \<exists>s'. body k s = Inr s' \<and> P (Suc k) s'"
  shows "\<exists>s'. for_loop body [0..<n] st = Inr s' \<and> P n s'"
  using assms(2)
proof (induction n)
  case 0
  then show ?case using assms(1) by simp
next
  case (Suc n)
  then obtain s where s: "for_loop body [0..<n] st = Inr s" "P n s"
    by (metis less_Suc_eq)
  from Suc.prems [of n s] s(2) obtain s' where "body n s = Inr s'" "P (Suc n) s'"
    by auto
  with s(1) show ?case by (simp add: for_loop_append)
qed

lemma u32_id: "n < 2 ^ 32 \<Longrightarrow> u32 n = n"
  by (simp add: u32_def)

lemma u32_le: "u32 n \<le> n"
  by (simp add: u32_def)

lemma u32_sub_id: "b \<le> a \<Longrightarrow> a < 2 ^ 32 \<Longrightarrow> u32_sub a b = a - b"
  by (simp add: u32_sub_def nat_diff_distrib' of_nat_diff)

lemma i32_id: "n < 2 ^ 31 \<Longrightarrow> i32 n = int n"
  by (simp add: i32_def)

lemma i32_u32_sub: 
  assumes "tick < 2 ^ 31" "c \<le> 2 ^ 31" 
  shows "i32 (u32_sub tick c) = int tick - int c"
proof (cases "c \<le> tick")
  case True
  then have "u32_sub tick c = tick - c" using assms by (simp add: u32_sub_id)
  then show ?thesis using True assms by (simp add: i32_id)
next
  case False
  have "(int tick - int c) mod 2 ^ 32 = (int tick - int c + 2 ^ 32) mod 2 ^ 32"
    by simp
  also have "\<dots> = int tick - int c + 2 ^ 32"
    using False assms by (intro mod_pos_pos_trivial) auto
  finally have u: "u32_sub tick c = nat (int tick - int c + 2 ^ 32)" 
    by (simp add: u32_sub_def)
  have b: "nat (int tick - int c + 2 ^ 32) < 2 ^ 32" "\<not> nat (int tick - int c + 2 ^ 32) < 2 ^ 31"
    using False assms by auto
  have "int (nat (int tick - int c + 2 ^ 32)) = int tick - int c + 2 ^ 32"
    using assms by auto
  then show ?thesis using b unfolding u i32_def by simp
qed

lemma recent_loop_window:
  assumes "j < int (length sd)"
  shows "bound \<le> j \<Longrightarrow>
    recent_loop sd thr bound j (rq, rl) =
      Inr (rq + length (filter (\<lambda>k. \<not> window_loud sd thr k) [bound + 1..j]),
           rl + length (filter (window_loud sd thr) [bound + 1..j]))"
  using assms
proof (induction "nat (j - bound)" arbitrary: j rq rl)
  case 0
  then have "j = bound" by simp
  then show ?case by (simp add: recent_loop.simps)
next
  case (Suc n)
  then have gt: "bound < j" and n: "n = nat (j - 1 - bound)" and le: "bound \<le> j - 1"
    and lt: "j - 1 < int (length sd)"
    by auto
  have up: "[bound + 1..j] = [bound + 1..j - 1] @ [j]"
    using gt by (simp add: upto_rec2)
  note IH = Suc.hyps(1) [OF n le lt]
  show ?case
  proof (cases "0 < j")
    case True
    then have "nat j < length sd" using Suc.prems by auto
    then show ?thesis
      using gt True by (subst recent_loop.simps) (simp add: IH up window_loud_def)
  next
    case False
    then show ?thesis
      using gt by (subst recent_loop.simps) (simp add: IH up window_loud_def)
  qed
qed

lemma recent_counts_eq:
  assumes "tick < length sd" "length sd < 2 ^ 31"
  shows "recent_counts sd thr tick =
           Inr (10 - loud_in_window sd thr tick, loud_in_window sd thr tick)"
proof -
  have t: "tick < 2 ^ 31" using assms by simp
  have b: "i32 (u32_sub tick recent_count) = int tick - 10"
    using i32_u32_sub [OF t, of recent_count] by (simp add: recent_count_def)
  have "length (filter (\<lambda>k. \<not> window_loud sd thr k) [int tick - 9..int tick])
          + length (filter (window_loud sd thr) [int tick - 9..int tick]) = 10"
    using sum_length_filter_compl [of "window_loud sd thr" "[int tick - 9..int tick]"]
    by simp
  then show ?thesis
    using recent_loop_window [of "int tick" sd "int tick - 10" thr 0 0] assms
    by (simp add: recent_counts_def b i32_id [OF t] loud_in_window_def)
qed













section \<open>The segmenter at every buffer size\<close>

lemma i32_le: "i32 n \<le> int n"
proof -
  have "n mod 2 ^ 32 \<le> n" by simp
  then have "int (n mod 2 ^ 32) \<le> int n" by (rule iffD2 [OF of_nat_le_iff])
  then show ?thesis unfolding i32_def by (cases "n mod 2 ^ 32 < 2 ^ 31") simp_all
qed

lemma recent_loop_loud_le:
  "recent_loop sd thr bound j (rq, rl) = Inr (rq', rl') \<Longrightarrow> rl' \<le> rl + nat j"
proof (induction sd thr bound j "(rq, rl)" arbitrary: rq rl rule: recent_loop.induct)
  case (1 sd thr bound j rq rl)
  show ?case
  proof (cases "j > bound")
    case False
    with "1.prems" show ?thesis by (simp add: recent_loop.simps)
  next
    case gt: True
    show ?thesis
    proof (cases "j > 0")
      case False
      with gt "1.prems" have "recent_loop sd thr bound (j - 1) (rq + 1, rl) = Inr (rq', rl')"
        by (simp add: recent_loop.simps)
      from "1.hyps"(3) [OF gt False this] False show ?thesis by simp
    next
      case pos: True
      show ?thesis
      proof (cases "nat j < length sd")
        case False
        with gt pos "1.prems" show ?thesis by (simp add: recent_loop.simps)
      next
        case inb: True
        show ?thesis
        proof (cases "sd ! nat j < thr")
          case True
          with gt pos inb "1.prems"
          have "recent_loop sd thr bound (j - 1) (rq + 1, rl) = Inr (rq', rl')"
            by (simp add: recent_loop.simps)
          from "1.hyps"(1) [OF gt pos inb True this] pos show ?thesis by simp
        next
          case False
          with gt pos inb "1.prems"
          have "recent_loop sd thr bound (j - 1) (rq, rl + 1) = Inr (rq', rl')"
            by (simp add: recent_loop.simps)
          from "1.hyps"(2) [OF gt pos inb False this] pos show ?thesis
            by (simp add: nat_diff_distrib)
        qed
      qed
    qed
  qed
qed

lemma recent_counts_loud_le:
  assumes "recent_counts sd thr tick = Inr (rq, rl)"
  shows "rl \<le> tick"
proof -
  from assms have "rl \<le> 0 + nat (i32 tick)"
    unfolding recent_counts_def by (rule recent_loop_loud_le)
  also have "\<dots> \<le> tick" using i32_le [of tick] by simp
  finally show ?thesis .
qed

lemma recent_loop_returns:
  assumes "j < int (length sd)"
  shows "\<exists>c. recent_loop sd thr bound j (rq, rl) = Inr c"
proof (cases "bound \<le> j")
  case True
  from recent_loop_window [OF assms True] show ?thesis by blast
next
  case False
  then show ?thesis by (simp add: recent_loop.simps)
qed

lemma recent_counts_returns:
  assumes "tick < length sd"
  shows "\<exists>rq rl. recent_counts sd thr tick = Inr (rq, rl) \<and> rl \<le> tick"
proof -
  have "i32 tick < int (length sd)" using i32_le [of tick] assms by simp
  from recent_loop_returns [OF this] obtain c
    where "recent_counts sd thr tick = Inr c"
    unfolding recent_counts_def by blast
  then obtain rq rl where r: "recent_counts sd thr tick = Inr (rq, rl)" by (cases c) simp
  with recent_counts_loud_le [OF r] show ?thesis by blast
qed

lemma u32_mult_id32:
  assumes "a \<le> b" "b * spc < 2 ^ 32"
  shows "u32 (a * spc) = a * spc"
proof -
  have "a * spc \<le> b * spc" using assms(1) by (rule mult_le_mono1)
  then have "a * spc < 2 ^ 32" using assms(2) by (rule le_less_trans)
  then show ?thesis by (rule u32_id)
qed

lemma tick_body_wf:
  assumes spc: "0 < spc" and k: "k < nc" and bound: "nc * spc < 2 ^ 32"
    and len: "length sd = nc"
    and inv: "tick_wf spc k (lst, started)"
  shows "\<exists>st'. tick_body sd thr spc nc k (lst, started) = Inr st' \<and> tick_wf spc (Suc k) st'"
proof -
  have "nc * 1 \<le> nc * spc" using spc by (intro mult_le_mono2) simp
  then have "nc \<le> nc * spc" by simp
  then have nc32: "nc < 2 ^ 32" using bound by (rule le_less_trans)
  from recent_counts_returns [of k sd thr] k len obtain rq rl
    where rc: "recent_counts sd thr k = Inr (rq, rl)" and rl: "rl \<le> k"
    by auto
  have sub_rl: "u32_sub k rl = k - rl"
    using rl k nc32 by (intro u32_sub_id) simp_all
  from inv have before: "started \<noteq> 0 \<Longrightarrow> started < k"
    and closed: "\<And>seg. seg \<in> set lst \<Longrightarrow> 0 < m_count seg \<and> m_start seg + m_count seg \<le> k * spc"
    by (auto simp: tick_wf_def)
  have closed': "0 < m_count seg \<and> m_start seg + m_count seg \<le> Suc k * spc"
    if "seg \<in> set lst" for seg
    using closed [OF that] by simp
  define seg where "seg = \<lparr>m_start = started * spc, m_count = (k - started) * spc\<rparr>"
  define A where "A \<longleftrightarrow> started = 0 \<and> louds_to_start \<le> rl"
  define B where "B \<longleftrightarrow> started \<noteq> 0 \<and> (quiets_to_stop \<le> rq \<or> k = u32_sub nc 1)"
  have body: "tick_body sd thr spc nc k (lst, started) =
      (if A then Inr (lst, u32_sub k rl)
       else if B then
         Inr (lst @ [\<lparr>m_start = u32 (started * spc), m_count = u32 (u32_sub k started * spc)\<rparr>], 0)
       else Inr (lst, started))"
    unfolding A_def B_def by (simp add: tick_body_def rc)
  consider (start) "tick_body sd thr spc nc k (lst, started) = Inr (lst, u32_sub k rl)"
    | (stop) "started \<noteq> 0"
        "tick_body sd thr spc nc k (lst, started) =
           Inr (lst @ [\<lparr>m_start = u32 (started * spc), m_count = u32 (u32_sub k started * spc)\<rparr>], 0)"
    | (keep) "tick_body sd thr spc nc k (lst, started) = Inr (lst, started)"
  proof (cases A)
    case True
    with body start show ?thesis by simp
  next
    case notA: False
    show ?thesis
    proof (cases B)
      case True
      then have "started \<noteq> 0" by (simp add: B_def)
      with body notA True stop show ?thesis by simp
    next
      case False
      with body notA keep show ?thesis by simp
    qed
  qed
  then show ?thesis
  proof cases
    case start
    have "tick_wf spc (Suc k) (lst, k - rl)"
      using closed' by (auto simp: tick_wf_def)
    with start sub_rl show ?thesis by simp
  next
    case stop
    from before stop(1) have lt: "started < k" by simp
    have m1: "u32 (started * spc) = started * spc"
      using lt k bound by (intro u32_mult_id32 [of _ nc]) simp_all
    have sub_s: "u32_sub k started = k - started"
      using lt k nc32 by (intro u32_sub_id) simp_all
    have m2: "u32 ((k - started) * spc) = (k - started) * spc"
      using k bound by (intro u32_mult_id32 [of _ nc]) simp_all
    have "0 < (k - started) * spc" using lt spc by simp
    then have cnt: "0 < m_count seg" by (simp add: seg_def)
    have "started * spc + (k - started) * spc = (started + (k - started)) * spc"
      by (simp add: add_mult_distrib)
    then have fin: "m_start seg + m_count seg = k * spc"
      using lt by (simp add: seg_def)
    have "tick_wf spc (Suc k) (lst @ [seg], 0)"
      using closed' cnt fin by (auto simp: tick_wf_def)
    with stop(2) show ?thesis by (simp add: m1 sub_s m2 seg_def)
  next
    case keep
    have "tick_wf spc (Suc k) (lst, started)"
      using closed' before by (auto simp: tick_wf_def)
    with keep show ?thesis by simp
  qed
qed

lemma stddev_chunks_returns:
  assumes "\<And>i. i \<in> set cs \<Longrightarrow> Suc i * spc \<le> length xs"
  shows "stddev_chunks xs spc cs =
           Inr (map (\<lambda>i. standard_deviation (take spc (drop (u32 (i * spc)) xs))) cs)"
  using assms
proof (induction cs)
  case Nil
  show ?case by simp
next
  case (Cons c cs)
  then have IH: "stddev_chunks xs spc cs =
           Inr (map (\<lambda>i. standard_deviation (take spc (drop (u32 (i * spc)) xs))) cs)"
    by simp
  have le: "Suc c * spc \<le> length xs" using Cons.prems by simp
  have "u32 (c * spc) \<le> c * spc" by (rule u32_le)
  with le have "u32 (c * spc) + spc \<le> length xs" by simp
  then have "chunk_at xs (u32 (c * spc)) spc = Inr (take spc (drop (u32 (c * spc)) xs))"
    by (simp add: chunk_at_def)
  with IH show ?case by simp
qed

lemma chunks_in_buffer:
  assumes "i \<in> set [0..<u32 (n div spc)]"
  shows "Suc i * spc \<le> n"
proof -
  have "u32 (n div spc) \<le> n div spc" by (rule u32_le)
  with assms have "Suc i \<le> n div spc" by simp
  then have "Suc i * spc \<le> (n div spc) * spc" by (rule mult_le_mono1)
  also have "\<dots> \<le> n" by simp
  finally show ?thesis .
qed

text \<open>What the segmenter does at every buffer size, for a chunk size of at least 1.\<close>

lemma FindSegments_wf:
  assumes spc: "0 < segment_samples_per_chunk wav"
  shows "if length (m_data wav) < 2 ^ 32
         then \<exists>segs started.
                FindSegmentsInAudioWaveform wav = Inr segs \<and>
                tick_wf (segment_samples_per_chunk wav)
                  (length (m_data wav) div segment_samples_per_chunk wav) (segs, started)
         else FindSegmentsInAudioWaveform wav = Inl NoReturn"
proof -
  define spc where "spc = segment_samples_per_chunk wav"
  define nc where "nc = u32 (length (m_data wav) div spc)"
  define sd where "sd = map (\<lambda>i. standard_deviation (take spc (drop (u32 (i * spc)) (m_data wav)))) [0..<nc]"
  have pos: "0 < spc" using spc by (simp add: spc_def)
  have sd: "stddev_chunks (m_data wav) spc [0..<nc] = Inr sd"
    unfolding sd_def nc_def by (rule stddev_chunks_returns) (rule chunks_in_buffer)
  have lsd: "length sd = nc" by (simp add: sd_def)
  show ?thesis
  proof (cases "length (m_data wav) < 2 ^ 32")
    case False
    then have ne: "m_data wav \<noteq> []" by auto
    have "FindMinMaxSamples wav = Inl NoReturn"
      using False ne by (simp add: FindMinMaxSamples_def)
    then have "FindSegmentsInAudioWaveform wav = Inl NoReturn"
      using pos by (simp add: FindSegmentsInAudioWaveform_def spc_def [symmetric]
          nc_def [symmetric] sd Let_def)
    with False show ?thesis by simp
  next
    case size: True
    have "length (m_data wav) div spc \<le> length (m_data wav)" by simp
    then have "length (m_data wav) div spc < 2 ^ 32" using size by (rule le_less_trans)
    then have nc: "nc = length (m_data wav) div spc" unfolding nc_def by (rule u32_id)
    have "nc * spc \<le> length (m_data wav)" by (simp add: nc)
    then have bound: "nc * spc < 2 ^ 32" using size by (rule le_less_trans)
    define pr where "pr = (if m_data wav = [] then (0, 0)
      else fold (\<lambda>x (smin, smax). (if x < smin then x else smin, if x > smax then x else smax))
             (m_data wav) (FLT_MAX, - FLT_MAX))"
    have "FindMinMaxSamples wav = Inr pr"
      using size by (simp add: FindMinMaxSamples_def pr_def)
    then obtain smin smax where mm: "FindMinMaxSamples wav = Inr (smin, smax)"
      by (cases pr) simp
    define thr where "thr = (smax - smin) / 40"
    have "\<exists>st'. for_loop (tick_body sd thr spc nc) [0..<nc] ([], 0) = Inr st' \<and>
           tick_wf spc nc st'"
    proof (rule for_loop_total [where P = "tick_wf spc"])
      show "tick_wf spc 0 ([], 0)" by (simp add: tick_wf_def)
    next
      fix k and s :: "Segment list \<times> nat"
      assume "k < nc" "tick_wf spc k s"
      then show "\<exists>s'. tick_body sd thr spc nc k s = Inr s' \<and> tick_wf spc (Suc k) s'"
        using tick_body_wf [OF pos _ bound lsd, of k "fst s" "snd s" thr] by simp
    qed
    then obtain lst started
      where run: "for_loop (tick_body sd thr spc nc) [0..<nc] ([], 0) = Inr (lst, started)"
        and inv: "tick_wf spc nc (lst, started)"
      by auto
    have "FindSegmentsInAudioWaveform wav = Inr lst"
      using pos by (simp add: FindSegmentsInAudioWaveform_def spc_def [symmetric]
          nc_def [symmetric] sd mm thr_def [symmetric] run Let_def)
    with inv size show ?thesis
      unfolding spc_def [symmetric] nc [symmetric] by auto
  qed
qed

section \<open>The segmenter on the program state\<close>

lemma tick_pass_loop:
  "for_loop (tick_pass thr spc nc) ticks st =
     (case for_loop (tick_body (s_stddev_per_chunk st) thr spc nc) ticks
             (s_list st, s_segment_started_tick st) of
        Inl e \<Rightarrow> Inl e
      | Inr (lst, started) \<Rightarrow> Inr (st\<lparr>s_list := lst, s_segment_started_tick := started\<rparr>))"
proof (induction ticks arbitrary: st)
  case Nil
  show ?case by simp
next
  case (Cons tick ticks)
  show ?case
  proof (cases "tick_body (s_stddev_per_chunk st) thr spc nc tick
                  (s_list st, s_segment_started_tick st)")
    case (Inl e)
    then show ?thesis by (simp add: tick_pass_def)
  next
    case (Inr r)
    obtain lst started where r: "r = (lst, started)" by (cases r)
    with Inr have step: "tick_pass thr spc nc tick st =
        Inr (st\<lparr>s_list := lst, s_segment_started_tick := started\<rparr>)"
      by (simp add: tick_pass_def)
    show ?thesis
      using Inr r by (simp add: step Cons.IH split: sum.splits prod.splits)
  qed
qed

lemma stddev_pass_loop:
  assumes inb: "\<And>i. i < n \<Longrightarrow> Suc i * spc \<le> length (m_data wav)"
  shows "for_loop (stddev_pass spc) [0..<n]
           \<lparr>s_wav = wav, s_stddev_per_chunk = replicate n 0, s_list = [],
              s_segment_started_tick = 0\<rparr>
         = Inr \<lparr>s_wav = wav,
                s_stddev_per_chunk =
                  map (\<lambda>i. standard_deviation (take spc (drop (u32 (i * spc)) (m_data wav)))) [0..<n],
                s_list = [], s_segment_started_tick = 0\<rparr>"
proof -
  let ?f = "\<lambda>i. standard_deviation (take spc (drop (u32 (i * spc)) (m_data wav)))"
  let ?P = "\<lambda>k st. s_wav st = wav \<and> s_list st = [] \<and> s_segment_started_tick st = 0 \<and>
              length (s_stddev_per_chunk st) = n \<and>
              (\<forall>i<k. s_stddev_per_chunk st ! i = ?f i)"
  have "\<exists>st. for_loop (stddev_pass spc) [0..<n]
           \<lparr>s_wav = wav, s_stddev_per_chunk = replicate n 0, s_list = [],
              s_segment_started_tick = 0\<rparr> = Inr st \<and> ?P n st"
  proof (rule for_loop_total [where P = ?P])
    show "?P 0 \<lparr>s_wav = wav, s_stddev_per_chunk = replicate n 0, s_list = [],
              s_segment_started_tick = 0\<rparr>"
      by simp
  next
    fix k and st :: segmenter_state
    assume k: "k < n" and inv: "?P k st"
    have "u32 (k * spc) \<le> k * spc" by (rule u32_le)
    with inb [OF k] have "u32 (k * spc) + spc \<le> length (m_data wav)" by simp
    then have rd: "chunk_at (m_data wav) (u32 (k * spc)) spc
                    = Inr (take spc (drop (u32 (k * spc)) (m_data wav)))"
      by (simp add: chunk_at_def)
    have body: "stddev_pass spc k st =
                  Inr (st\<lparr>s_stddev_per_chunk := (s_stddev_per_chunk st)[k := ?f k]\<rparr>)"
      using k inv by (simp add: stddev_pass_def rd)
    have "(s_stddev_per_chunk st)[k := ?f k] ! i = ?f i" if "i < Suc k" for i
    proof (cases "i = k")
      case True
      then show ?thesis using k inv by simp
    next
      case False
      then show ?thesis using that inv by simp
    qed
    with body inv show "\<exists>s'. stddev_pass spc k st = Inr s' \<and> ?P (Suc k) s'"
      by simp
  qed
  then obtain st where run: "for_loop (stddev_pass spc) [0..<n]
           \<lparr>s_wav = wav, s_stddev_per_chunk = replicate n 0, s_list = [],
              s_segment_started_tick = 0\<rparr> = Inr st"
    and st: "?P n st"
    by blast
  have "s_stddev_per_chunk st = map ?f [0..<n]"
    using st by (intro nth_equalityI) simp_all
  with st have "st = \<lparr>s_wav = wav, s_stddev_per_chunk = map ?f [0..<n], s_list = [],
                        s_segment_started_tick = 0\<rparr>"
    by simp
  with run show ?thesis by simp
qed

text \<open>
  The function on the state returns what the function on the waveform returns, and hands
  the waveform back as it received it.
\<close>

lemma FindSegments_st_eq:
  "FindSegmentsInAudioWaveform_st wav =
     (case FindSegmentsInAudioWaveform wav of Inl e \<Rightarrow> Inl e | Inr segs \<Rightarrow> Inr (segs, wav))"
proof (cases "segment_samples_per_chunk wav = 0")
  case True
  then show ?thesis
    by (simp add: FindSegmentsInAudioWaveform_st_def FindSegmentsInAudioWaveform_def)
next
  case False
  define spc where "spc = segment_samples_per_chunk wav"
  define nc where "nc = u32 (length (m_data wav) div spc)"
  define sd where "sd = map (\<lambda>i. standard_deviation (take spc (drop (u32 (i * spc)) (m_data wav)))) [0..<nc]"
  define st1 where "st1 = \<lparr>s_wav = wav, s_stddev_per_chunk = sd, s_list = [],
                              s_segment_started_tick = 0\<rparr>"
  have pos: "spc \<noteq> 0" using False by (simp add: spc_def)
  have inb: "Suc i * spc \<le> length (m_data wav)" if "i < nc" for i
  proof -
    have "i \<in> set [0..<u32 (length (m_data wav) div spc)]" using that by (simp add: nc_def)
    then show ?thesis by (rule chunks_in_buffer)
  qed
  have inb': "Suc i * spc \<le> length (m_data wav)" if "i \<in> set [0..<nc]" for i
    using that by (intro inb) simp
  have sd: "stddev_chunks (m_data wav) spc [0..<nc] = Inr sd"
    unfolding sd_def by (rule stddev_chunks_returns) (rule inb')
  have loop1: "for_loop (stddev_pass spc) [0..<nc]
           \<lparr>s_wav = wav, s_stddev_per_chunk = replicate nc 0, s_list = [],
              s_segment_started_tick = 0\<rparr> = Inr st1"
    unfolding st1_def sd_def by (rule stddev_pass_loop) (rule inb)
  show ?thesis
  proof (cases "FindMinMaxSamples wav")
    case (Inl e)
    then show ?thesis
      using pos by (simp add: FindSegmentsInAudioWaveform_st_def FindSegmentsInAudioWaveform_def
          spc_def [symmetric] nc_def [symmetric] Let_def sd loop1 st1_def)
  next
    case (Inr pr)
    obtain smin smax where "pr = (smin, smax)" by (cases pr)
    with Inr have mm: "FindMinMaxSamples wav = Inr (smin, smax)" by simp
    define thr where "thr = (smax - smin) / 40"
    show ?thesis
    proof (cases "for_loop (tick_body sd thr spc nc) [0..<nc] ([], 0)")
      case (Inl e)
      then show ?thesis
        using pos by (simp add: FindSegmentsInAudioWaveform_st_def FindSegmentsInAudioWaveform_def
            spc_def [symmetric] nc_def [symmetric] Let_def sd loop1 mm thr_def [symmetric]
            tick_pass_loop st1_def)
    next
      case (Inr r)
      obtain lst started where "r = (lst, started)" by (cases r)
      with Inr have run: "for_loop (tick_body sd thr spc nc) [0..<nc] ([], 0) = Inr (lst, started)"
        by simp
      then show ?thesis
        using pos by (simp add: FindSegmentsInAudioWaveform_st_def FindSegmentsInAudioWaveform_def
            spc_def [symmetric] nc_def [symmetric] Let_def sd loop1 mm thr_def [symmetric]
            tick_pass_loop st1_def)
    qed
  qed
qed

section \<open>The chunk loop of the normalizer\<close>

lemma scale_loop:
  assumes "isample + count \<le> length ys"
  shows "\<exists>zs. for_loop (scale_sample g isample) [0..<count] ys = Inr zs \<and>
           length zs = length ys \<and>
           (\<forall>i<length ys. zs ! i =
              (if isample \<le> i \<and> i < isample + count then ys ! i * g else ys ! i))"
proof (rule for_loop_total [where P = "\<lambda>m zs. length zs = length ys \<and>
           (\<forall>i<length ys. zs ! i =
              (if isample \<le> i \<and> i < isample + m then ys ! i * g else ys ! i))"])
  show "length ys = length ys \<and>
    (\<forall>i<length ys. ys ! i = (if isample \<le> i \<and> i < isample + 0 then ys ! i * g else ys ! i))"
    by simp
next
  fix m zs
  assume m: "m < count"
    and inv: "length zs = length ys \<and>
           (\<forall>i<length ys. zs ! i =
              (if isample \<le> i \<and> i < isample + m then ys ! i * g else ys ! i))"
  have inb: "isample + m < length zs" using m assms inv by simp
  then have body: "scale_sample g isample m zs = Inr (zs[isample + m := zs ! (isample + m) * g])"
    by (simp add: scale_sample_def)
  have "(zs[isample + m := zs ! (isample + m) * g]) ! i =
          (if isample \<le> i \<and> i < isample + Suc m then ys ! i * g else ys ! i)"
    if "i < length ys" for i
  proof (cases "i = isample + m")
    case True
    then show ?thesis using inv inb that by simp
  next
    case False
    then show ?thesis using inv inb that by (auto simp: nth_list_update)
  qed
  with body inv
  show "\<exists>s'. scale_sample g isample m zs = Inr s' \<and> length s' = length ys \<and>
           (\<forall>i<length ys. s' ! i =
              (if isample \<le> i \<and> i < isample + Suc m then ys ! i * g else ys ! i))"
    by simp
qed

lemma chunk_peak_snoc:
  "chunk_peak (c @ [x]) = (if \<bar>x\<bar> > chunk_peak c then \<bar>x\<bar> else chunk_peak c)"
  by (simp add: chunk_peak_def Let_def)

lemma peak_loop:
  assumes inb: "isample + spc \<le> length xs"
  shows "\<exists>p. for_loop (peak_sample xs isample) [0..<spc] 0 = Inr p \<and>
           (isample + spc \<le> 2 ^ 32 \<longrightarrow> p = chunk_peak (take spc (drop isample xs)))"
proof (rule for_loop_total [where P = "\<lambda>m p. isample + spc \<le> 2 ^ 32 \<longrightarrow>
           p = chunk_peak (take m (drop isample xs))"])
  show "isample + spc \<le> 2 ^ 32 \<longrightarrow> 0 = chunk_peak (take 0 (drop isample xs))"
    by (simp add: chunk_peak_def)
next
  fix m and p :: real
  assume m: "m < spc"
    and inv: "isample + spc \<le> 2 ^ 32 \<longrightarrow> p = chunk_peak (take m (drop isample xs))"
  define i where "i = u32 (isample + m)"
  have "i \<le> isample + m" unfolding i_def by (rule u32_le)
  then have il: "i < length xs" using m inb by simp
  then have body: "peak_sample xs isample m p = Inr (if \<bar>xs ! i\<bar> > p then \<bar>xs ! i\<bar> else p)"
    by (simp add: peak_sample_def i_def [symmetric] Let_def)
  have "(if \<bar>xs ! i\<bar> > p then \<bar>xs ! i\<bar> else p) = chunk_peak (take (Suc m) (drop isample xs))"
    if small: "isample + spc \<le> 2 ^ 32"
  proof -
    have "isample + m < 2 ^ 32" using m small by simp
    then have i: "i = isample + m" unfolding i_def by (rule u32_id)
    have "m < length (drop isample xs)" using m inb by simp
    then have "take (Suc m) (drop isample xs) = take m (drop isample xs) @ [drop isample xs ! m]"
      by (rule take_Suc_conv_app_nth)
    moreover have "drop isample xs ! m = xs ! i" using m inb i by simp
    ultimately show ?thesis using inv small by (simp add: chunk_peak_snoc)
  qed
  with body show "\<exists>s'. peak_sample xs isample m p = Inr s' \<and>
      (isample + spc \<le> 2 ^ 32 \<longrightarrow> s' = chunk_peak (take (Suc m) (drop isample xs)))"
    by simp
qed

text \<open>Every pass of the chunk loop stays inside the buffer, whatever its size.\<close>

lemma normalize_chunk_returns:
  assumes k: "k < u32 (length ys div spc)"
  shows "\<exists>p zs. normalize_chunk max_vol spc (u32 (length ys div spc)) k (gain, ys) =
             Inr (attack_gain max_vol p (release_gain max_vol p gain), zs)
           \<and> (u32 (k * spc) + spc \<le> 2 ^ 32 \<longrightarrow>
                p = chunk_peak (take spc (drop (u32 (k * spc)) ys)))
           \<and> length zs = length ys
           \<and> (\<forall>i<length ys. zs ! i =
              (if u32 (k * spc) \<le> i \<and>
                  i < u32 (k * spc) + pass_count spc (u32 (length ys div spc)) (length ys) k (u32 (k * spc))
               then ys ! i * attack_gain max_vol p (release_gain max_vol p gain)
               else ys ! i))"
proof -
  define nc where "nc = u32 (length ys div spc)"
  define isample where "isample = u32 (k * spc)"
  have "nc \<le> length ys div spc" unfolding nc_def by (rule u32_le)
  then have "Suc k \<le> length ys div spc" using k by (simp add: nc_def)
  then have "Suc k * spc \<le> (length ys div spc) * spc" by (rule mult_le_mono1)
  also have "\<dots> \<le> length ys" by simp
  finally have le: "k * spc + spc \<le> length ys" by simp
  have "isample \<le> k * spc" unfolding isample_def by (rule u32_le)
  with le have inb: "isample + spc \<le> length ys" by simp
  from peak_loop [OF inb] obtain p
    where rd: "for_loop (peak_sample ys isample) [0..<spc] 0 = Inr p"
      and pk: "isample + spc \<le> 2 ^ 32 \<longrightarrow> p = chunk_peak (take spc (drop isample ys))"
    by blast
  define g where "g = attack_gain max_vol p (release_gain max_vol p gain)"
  define count where "count = pass_count spc nc (length ys) k isample"
  have "isample + count \<le> length ys"
    using inb by (simp add: count_def pass_count_def)
  from scale_loop [OF this, of g] obtain zs
    where zs: "for_loop (scale_sample g isample) [0..<count] ys = Inr zs"
      "length zs = length ys"
      "\<forall>i<length ys. zs ! i = (if isample \<le> i \<and> i < isample + count then ys ! i * g else ys ! i)"
    by blast
  have "normalize_chunk max_vol spc nc k (gain, ys) = Inr (g, zs)"
    by (simp add: normalize_chunk_def isample_def [symmetric] rd Let_def g_def [symmetric]
        count_def [symmetric] zs(1))
  with zs(2,3) pk show ?thesis
    unfolding nc_def [symmetric] isample_def [symmetric] count_def [symmetric] g_def
    by blast
qed

lemma normalize_chunks_total:
  assumes k: "k \<le> u32 (length xs div spc)" and one: "Q 1"
    and step: "\<And>p g. Q g \<Longrightarrow> Q (attack_gain max_vol p (release_gain max_vol p g))"
  shows "\<exists>g ys. normalize_chunks max_vol spc xs [0..<k] = Inr (g, ys) \<and>
           length ys = length xs \<and> Q g"
proof -
  have "\<exists>st. for_loop (normalize_chunk max_vol spc (u32 (length xs div spc))) [0..<k] (1, xs) = Inr st \<and>
          (length (snd st) = length xs \<and> Q (fst st))"
  proof (rule for_loop_total [where P = "\<lambda>m st. length (snd st) = length xs \<and> Q (fst st)"])
    show "length (snd (1, xs)) = length xs \<and> Q (fst (1::real, xs))" using one by simp
  next
    fix m and st :: "real \<times> real list"
    assume m: "m < k" and inv: "length (snd st) = length xs \<and> Q (fst st)"
    obtain gain ys where st: "st = (gain, ys)" by (cases st)
    with inv have len: "length ys = length xs" and q: "Q gain" by simp_all
    have "m < u32 (length ys div spc)" using m k len by simp
    from normalize_chunk_returns [OF this, of max_vol gain] obtain p zs
      where "normalize_chunk max_vol spc (u32 (length xs div spc)) m (gain, ys) =
             Inr (attack_gain max_vol p (release_gain max_vol p gain), zs)"
        "length zs = length xs"
      unfolding len by blast
    then show "\<exists>s'. normalize_chunk max_vol spc (u32 (length xs div spc)) m st = Inr s' \<and>
           (length (snd s') = length xs \<and> Q (fst s'))"
      using step [OF q] st by simp
  qed
  then show ?thesis by (auto simp: normalize_chunks_def)
qed

lemma release_gain_le: "g \<le> 105 \<Longrightarrow> release_gain m p g \<le> 105"
  by (simp add: release_gain_def)

lemma attack_gain_le:
  assumes "0 \<le> m" "m \<le> 1" "g \<le> 105"
  shows "attack_gain m p g \<le> 105"
proof (cases "p * g > m")
  case False
  then show ?thesis using assms by (simp add: attack_gain_def)
next
  case True
  show ?thesis
  proof (cases "p < 0.02")
    case True
    then show ?thesis using assms \<open>p * g > m\<close> by (simp add: attack_gain_def)
  next
    case False
    then have "m / p \<le> m / 0.02" using assms(1) by (intro divide_left_mono) simp_all
    also have "\<dots> \<le> 105" using assms by simp
    finally show ?thesis using False \<open>p * g > m\<close> by (simp add: attack_gain_def)
  qed
qed

lemma attack_gain_changed:
  assumes "0 \<le> m" "attack_gain m p g \<noteq> g"
  shows "attack_gain m p g \<le> m / 0.02"
proof -
  have c: "p * g > m"
  proof (rule ccontr)
    assume "\<not> p * g > m"
    then have "attack_gain m p g = g" by (simp add: attack_gain_def)
    with assms(2) show False by simp
  qed
  show ?thesis
  proof (cases "p < 0.02")
    case True
    then show ?thesis using c by (simp add: attack_gain_def)
  next
    case False
    then have "m / p \<le> m / 0.02" using assms(1) by (intro divide_left_mono) simp_all
    then show ?thesis using False c by (simp add: attack_gain_def)
  qed
qed

lemma db_to_linear_range: "db \<le> 0 \<Longrightarrow> 0 < db_to_linear db \<and> db_to_linear db \<le> 1"
proof -
  assume "db \<le> 0"
  then have "(10::real) powr (db / 20) \<le> 10 powr 0" by (intro powr_mono) simp_all
  then show ?thesis by (simp add: db_to_linear_def)
qed

lemma div_eq_chunk:
  assumes "k * spc \<le> i" "i < k * spc + spc"
  shows "i div spc = (k::nat)"
proof -
  have "0 < spc" using assms by (cases spc) auto
  have "i div spc < Suc k" using assms(2) \<open>0 < spc\<close> by (simp add: less_mult_imp_div_less mult.commute)
  moreover have "k \<le> i div spc"
    using assms(1) \<open>0 < spc\<close> by (simp add: less_eq_div_iff_mult_less_eq)
  ultimately show ?thesis by simp
qed

lemma chunk_inv_step:
  assumes k: "k < nc" and nc: "nc = length xs div spc" and size: "length xs < 2 ^ 32"
    and inv: "chunk_inv max_vol spc nc xs k (gain, ys)"
  shows "\<exists>st'. normalize_chunk max_vol spc (u32 (length xs div spc)) k (gain, ys) = Inr st' \<and>
               chunk_inv max_vol spc nc xs (Suc k) st'"
proof -
  have pos: "0 < spc" using k nc by (cases spc) auto
  from inv have len: "length ys = length xs" and g: "gain = gain_after max_vol spc xs k"
    and old: "\<And>i. i < length xs \<Longrightarrow> ys ! i =
             (if i < k * spc \<or> (k = nc \<and> 0 < nc)
              then xs ! i * gain_after max_vol spc xs (Suc (min (i div spc) (nc - 1)))
              else xs ! i)"
    by (auto simp: chunk_inv_def)
  have "nc \<le> length xs" by (simp add: nc)
  then have nc32: "nc < 2 ^ 32" using size by simp
  then have unc: "u32 (length xs div spc) = nc" by (simp add: nc u32_id)
  have ncs: "nc * spc \<le> length xs" by (simp add: nc)
  have "Suc k * spc \<le> nc * spc" using k by (intro mult_le_mono1) simp
  with ncs have le: "k * spc + spc \<le> length xs" by simp
  then have "k * spc < 2 ^ 32" using size by simp
  then have isam: "u32 (k * spc) = k * spc" by (rule u32_id)
  have small: "k * spc + spc \<le> 2 ^ 32" using le size by simp
  have "u32_sub nc 1 = nc - 1" using k nc32 by (intro u32_sub_id) simp_all
  then have cnt: "pass_count spc nc (length xs) k (k * spc) =
                    (if Suc k = nc then length xs - k * spc else spc)"
    using k by (auto simp: pass_count_def)
  have same: "drop (k * spc) ys = drop (k * spc) xs"
  proof (rule nth_equalityI)
    show "length (drop (k * spc) ys) = length (drop (k * spc) xs)" using len by simp
  next
    fix i assume "i < length (drop (k * spc) ys)"
    then have "k * spc + i < length xs" using len by simp
    from old [OF this] k show "drop (k * spc) ys ! i = drop (k * spc) xs ! i"
      using len le by simp
  qed
  define g' where "g' = gain_after max_vol spc xs (Suc k)"
  have g': "attack_gain max_vol (chunk_peak (take spc (drop (k * spc) ys)))
              (release_gain max_vol (chunk_peak (take spc (drop (k * spc) ys))) gain) = g'"
    by (simp add: g'_def same g Let_def)
  have "k < u32 (length ys div spc)" using k unc len by simp
  from normalize_chunk_returns [OF this, of max_vol gain]
  obtain p zs where run0: "normalize_chunk max_vol spc nc k (gain, ys) =
        Inr (attack_gain max_vol p (release_gain max_vol p gain), zs)"
    and p: "p = chunk_peak (take spc (drop (k * spc) ys))"
    and lz: "length zs = length xs"
    and new0: "\<And>i. i < length xs \<Longrightarrow> zs ! i =
        (if k * spc \<le> i \<and> i < k * spc + (if Suc k = nc then length xs - k * spc else spc)
         then ys ! i * attack_gain max_vol p (release_gain max_vol p gain) else ys ! i)"
    unfolding len unc isam cnt using small by blast
  have run: "normalize_chunk max_vol spc nc k (gain, ys) = Inr (g', zs)"
    using run0 unfolding p g' .
  have new: "zs ! i =
        (if k * spc \<le> i \<and> i < k * spc + (if Suc k = nc then length xs - k * spc else spc)
         then ys ! i * g' else ys ! i)" if "i < length xs" for i
    using new0 [OF that] unfolding p g' .
  have "zs ! i = (if i < Suc k * spc \<or> (Suc k = nc \<and> 0 < nc)
              then xs ! i * gain_after max_vol spc xs (Suc (min (i div spc) (nc - 1)))
              else xs ! i)" if i: "i < length xs" for i
  proof -
    consider (before) "i < k * spc" | (inside) "k * spc \<le> i" "i < k * spc + spc"
      | (after) "k * spc + spc \<le> i"
      by linarith
    then show ?thesis
    proof cases
      case before
      then have "zs ! i = ys ! i" using new [OF i] by simp
      with old [OF i] before show ?thesis by simp
    next
      case inside
      then have d: "i div spc = k" by (rule div_eq_chunk)
      have "ys ! i = xs ! i" using old [OF i] inside k by simp
      moreover have "zs ! i = ys ! i * g'" using new [OF i] inside i by auto
      moreover have "min k (nc - 1) = k" using k by simp
      ultimately show ?thesis using inside d by (simp add: g'_def)
    next
      case after
      have y: "ys ! i = xs ! i" using old [OF i] after k by simp
      show ?thesis
      proof (cases "Suc k = nc")
        case True
        have "k * spc \<le> i" using after by simp
        then have "k \<le> i div spc" using pos by (simp add: less_eq_div_iff_mult_less_eq)
        then have "min (i div spc) (nc - 1) = k" using True by auto
        moreover have "zs ! i = ys ! i * g'" using new [OF i] after i True by simp
        ultimately show ?thesis using True y by (simp add: g'_def)
      next
        case False
        then have "zs ! i = ys ! i" using new [OF i] after by simp
        with y False after show ?thesis by simp
      qed
    qed
  qed
  then have "chunk_inv max_vol spc nc xs (Suc k) (g', zs)"
    using lz by (simp add: chunk_inv_def g'_def)
  with run unc show ?thesis by simp
qed

lemma normalize_chunks_exact:
  assumes size: "length xs < 2 ^ 32"
  shows "\<exists>g ys. normalize_chunks max_vol spc xs [0..<u32 (length xs div spc)] = Inr (g, ys) \<and>
           chunk_inv max_vol spc (length xs div spc) xs (length xs div spc) (g, ys)"
proof -
  define nc where "nc = length xs div spc"
  have "nc \<le> length xs" by (simp add: nc_def)
  then have "nc < 2 ^ 32" using size by (rule le_less_trans)
  then have unc: "u32 (length xs div spc) = nc" unfolding nc_def by (rule u32_id)
  have "\<exists>st. for_loop (normalize_chunk max_vol spc (u32 (length xs div spc))) [0..<nc] (1, xs) = Inr st \<and>
          chunk_inv max_vol spc nc xs nc st"
  proof (rule for_loop_total [where P = "chunk_inv max_vol spc nc xs"])
    show "chunk_inv max_vol spc nc xs 0 (1, xs)"
      by (cases "nc = 0") (simp_all add: chunk_inv_def)
  next
    fix k and st :: "real \<times> real list"
    assume "k < nc" "chunk_inv max_vol spc nc xs k st"
    then show "\<exists>s'. normalize_chunk max_vol spc (u32 (length xs div spc)) k st = Inr s' \<and>
               chunk_inv max_vol spc nc xs (Suc k) s'"
      using chunk_inv_step [OF _ nc_def size, of k max_vol "fst st" "snd st"] by simp
  qed
  then obtain g ys where
    "for_loop (normalize_chunk max_vol spc (u32 (length xs div spc))) [0..<nc] (1, xs) = Inr (g, ys)"
    "chunk_inv max_vol spc nc xs nc (g, ys)"
    by auto
  then have "normalize_chunks max_vol spc xs [0..<u32 (length xs div spc)] = Inr (g, ys) \<and>
           chunk_inv max_vol spc (length xs div spc) xs (length xs div spc) (g, ys)"
    unfolding normalize_chunks_def unc unfolding nc_def by simp
  then show ?thesis by blast
qed

section \<open>The chunk size of the normalizer\<close>

text \<open>
  The chunk size at three sample rates: 2 at 200 Hz and 480 at 48 kHz, the hundredth of the
  rate, and 167773 at 16777299 Hz, where the conversion of the rate to \<^verbatim>\<open>float\<close> rounds it
  up to 16777300 and the truncated product is one more than the hundredth.
\<close>

lemma chunk_size_examples:
  "normalize_samples_per_chunk \<lparr>m_frequency = 200, m_data = xs\<rparr> = 2"
  "normalize_samples_per_chunk \<lparr>m_frequency = 48000, m_data = xs\<rparr> = 480"
  "normalize_samples_per_chunk \<lparr>m_frequency = 16777299, m_data = xs\<rparr> = 167773"
  by (simp_all add: normalize_samples_per_chunk_def round_to_24_bits_def bit_length.simps)

section \<open>Empty buffers and the ceiling on full chunks\<close>

text \<open>On an empty buffer the segmenter returns no segment when the chunk size is not 0, and
  the normalizer returns the waveform as it is at every sample rate.\<close>

lemma empty_buffer_no_op:
  "m_data wav = [] \<Longrightarrow> 0 < segment_samples_per_chunk wav \<Longrightarrow>
     FindSegmentsInAudioWaveform wav = Inr []"
  "m_data wav = [] \<Longrightarrow> NormalizeAudioWaveform wav db_level = Inr wav"
  by (simp_all add: FindSegmentsInAudioWaveform_def NormalizeAudioWaveform_def
      FindMinMaxSamples_def u32_def)

lemma chunk_peak_ge: "0 \<le> chunk_peak c \<and> (\<forall>x \<in> set c. \<bar>x\<bar> \<le> chunk_peak c)"
proof (induction c rule: rev_induct)
  case Nil
  show ?case by (simp add: chunk_peak_def)
next
  case (snoc x c)
  then show ?case by (auto simp: chunk_peak_snoc)
qed

lemma release_gain_nonneg: "0 \<le> g \<Longrightarrow> 0 \<le> release_gain m p g"
  by (simp add: release_gain_def)

lemma attack_gain_bounds:
  assumes "0 < m" "0 \<le> p" "0 \<le> g"
  shows "0 \<le> attack_gain m p g \<and> p * attack_gain m p g \<le> m"
proof (cases "p * g > m")
  case False
  then show ?thesis using assms by (simp add: attack_gain_def)
next
  case True
  show ?thesis
  proof (cases "p < 0.02")
    case small: True
    have "p * (m / 0.02) = m * (p / 0.02)" by simp
    also have "\<dots> \<le> m * 1" using small assms by (intro mult_left_mono) simp_all
    finally show ?thesis using True small assms by (simp add: attack_gain_def)
  next
    case False
    then have "0 < p" by simp
    then show ?thesis using True False assms by (simp add: attack_gain_def)
  qed
qed

lemma gain_after_nonneg: "0 < m \<Longrightarrow> 0 \<le> gain_after m spc xs k"
proof (induction k)
  case 0
  show ?case by simp
next
  case (Suc k)
  then have "0 \<le> release_gain m (chunk_peak (take spc (drop (k * spc) xs))) (gain_after m spc xs k)"
    by (intro release_gain_nonneg) simp
  with attack_gain_bounds [OF Suc.prems, of "chunk_peak (take spc (drop (k * spc) xs))"]
    chunk_peak_ge [of "take spc (drop (k * spc) xs)"]
  show ?case by (simp add: Let_def)
qed

text \<open>
  In exact arithmetic the samples of the full chunks end at or below the target; the
  remainder after the last full chunk is scaled by a gain that was computed without it.
\<close>

lemma full_chunks_below_target:
  assumes m: "0 < max_vol" and size: "length xs < 2 ^ 32"
    and i: "i < (length xs div spc) * spc"
  shows "\<exists>g ys. normalize_chunks max_vol spc xs [0..<u32 (length xs div spc)] = Inr (g, ys) \<and>
           \<bar>ys ! i\<bar> \<le> max_vol"
proof -
  define nc where "nc = length xs div spc"
  have pos: "0 < spc" using i by (cases spc) auto
  have il: "i < length xs"
    using i by (rule less_le_trans) simp
  have c: "i div spc < nc" using i pos by (simp add: nc_def less_mult_imp_div_less)
  then have nc1: "0 < nc" by simp
  from normalize_chunks_exact [OF size, of max_vol spc] obtain g ys
    where run: "normalize_chunks max_vol spc xs [0..<u32 (length xs div spc)] = Inr (g, ys)"
      and inv: "chunk_inv max_vol spc nc xs nc (g, ys)"
    unfolding nc_def by blast
  have "min (i div spc) (nc - 1) = i div spc" using c by simp
  with inv il nc1 have val: "ys ! i = xs ! i * gain_after max_vol spc xs (Suc (i div spc))"
    by (simp add: chunk_inv_def)
  define k where "k = i div spc"
  define p where "p = chunk_peak (take spc (drop (k * spc) xs))"
  define g0 where "g0 = release_gain max_vol p (gain_after max_vol spc xs k)"
  have g1: "gain_after max_vol spc xs (Suc k) = attack_gain max_vol p g0"
    by (simp add: p_def g0_def Let_def)
  have "k * spc \<le> i" unfolding k_def by simp
  moreover have "i < k * spc + spc"
    unfolding k_def using pos dividend_less_div_times [of spc i]
    by (simp add: mult.commute add.commute)
  ultimately have "xs ! i = take spc (drop (k * spc) xs) ! (i - k * spc)"
    and "i - k * spc < length (take spc (drop (k * spc) xs))"
    using il by auto
  then have "xs ! i \<in> set (take spc (drop (k * spc) xs))"
    by (metis nth_mem)
  then have xp: "\<bar>xs ! i\<bar> \<le> p" and p0: "0 \<le> p"
    using chunk_peak_ge [of "take spc (drop (k * spc) xs)"] by (auto simp: p_def)
  have "0 \<le> g0" unfolding g0_def by (intro release_gain_nonneg gain_after_nonneg m)
  from attack_gain_bounds [OF m p0 this]
  have a0: "0 \<le> attack_gain max_vol p g0" and a1: "p * attack_gain max_vol p g0 \<le> max_vol"
    by simp_all
  have "ys ! i = xs ! i * attack_gain max_vol p g0"
    using val unfolding k_def [symmetric] g1 .
  then have "\<bar>ys ! i\<bar> = \<bar>xs ! i\<bar> * attack_gain max_vol p g0"
    using a0 by (simp add: abs_mult)
  also have "\<dots> \<le> p * attack_gain max_vol p g0"
    using xp a0 by (rule mult_right_mono)
  also have "\<dots> \<le> max_vol" by (rule a1)
  finally show ?thesis using run by blast
qed

text \<open>
  A buffer that holds at least one full chunk is scaled sample by sample, the remainder by
  the pass of the last full chunk; a buffer shorter than one chunk gets no pass.
\<close>

lemma full_chunk_buffer_scaled:
  assumes "0 < normalize_samples_per_chunk wav"
    and "normalize_samples_per_chunk wav \<le> length (m_data wav)"
    and "length (m_data wav) < 2 ^ 32"
  shows "\<exists>wav'. NormalizeAudioWaveform wav db_level = Inr wav' \<and>
           length (m_data wav') = length (m_data wav) \<and>
           (\<forall>i<length (m_data wav).
              (let spc = normalize_samples_per_chunk wav;
                   nc = length (m_data wav) div spc;
                   chunk = min (i div spc) (nc - 1)
               in chunk < nc \<and> chunk * spc \<le> i \<and>
                  i < chunk * spc + pass_count spc nc (length (m_data wav)) chunk (chunk * spc) \<and>
                  m_data wav' ! i =
                    m_data wav ! i * gain_after (db_to_linear db_level) spc (m_data wav) (Suc chunk)))"
proof -
  define xs where "xs = m_data wav"
  define spc where "spc = normalize_samples_per_chunk wav"
  define nc where "nc = length xs div spc"
  have pos: "0 < spc" and full: "spc \<le> length xs" and size: "length xs < 2 ^ 32"
    using assms by (simp_all add: spc_def xs_def)
  have nc1: "0 < nc" using pos full by (simp add: nc_def div_greater_zero_iff)
  have "nc \<le> length xs" by (simp add: nc_def)
  then have nc32: "nc < 2 ^ 32" using size by (rule le_less_trans)
  then have unc': "u32 nc = nc" by (rule u32_id)
  then have unc: "u32 (length xs div spc) = nc" by (simp add: nc_def)
  from normalize_chunks_exact [OF size, of "db_to_linear db_level" spc] obtain g ys
    where run: "normalize_chunks (db_to_linear db_level) spc xs [0..<nc] = Inr (g, ys)"
      and inv: "chunk_inv (db_to_linear db_level) spc nc xs nc (g, ys)"
    unfolding nc_def [symmetric] unc' by blast
  have ne: "xs \<noteq> []" using pos full by auto
  have res: "NormalizeAudioWaveform wav db_level = Inr (wav\<lparr>m_data := ys\<rparr>)"
    using ne pos
    by (simp add: NormalizeAudioWaveform_def Let_def spc_def [symmetric] xs_def [symmetric] unc run)
  from inv nc1 have len: "length ys = length xs"
    and val: "\<And>i. i < length xs \<Longrightarrow>
       ys ! i = xs ! i * gain_after (db_to_linear db_level) spc xs (Suc (min (i div spc) (nc - 1)))"
    by (simp_all add: chunk_inv_def)
  have last: "u32_sub nc 1 = nc - 1" using nc1 nc32 by (intro u32_sub_id) simp_all
  have cover: "min (i div spc) (nc - 1) < nc \<and> min (i div spc) (nc - 1) * spc \<le> i \<and>
      i < min (i div spc) (nc - 1) * spc
            + pass_count spc nc (length xs) (min (i div spc) (nc - 1)) (min (i div spc) (nc - 1) * spc)"
    if i: "i < length xs" for i
  proof -
    define c where "c = min (i div spc) (nc - 1)"
    have c1: "c < nc" using nc1 by (simp add: c_def)
    have "c * spc \<le> (i div spc) * spc" by (intro mult_le_mono1) (simp add: c_def)
    also have "\<dots> \<le> i" by simp
    finally have c2: "c * spc \<le> i" .
    have c3: "i < c * spc + pass_count spc nc (length xs) c (c * spc)"
    proof (cases "c = nc - 1")
      case True
      then show ?thesis using i c2 last by (simp add: pass_count_def)
    next
      case False
      then have "c = i div spc" unfolding c_def by linarith
      moreover have "i < (i div spc) * spc + spc"
        using pos dividend_less_div_times [of spc i] by (simp add: mult.commute add.commute)
      ultimately show ?thesis using False last by (simp add: pass_count_def)
    qed
    from c1 c2 c3 show ?thesis unfolding c_def by blast
  qed
  show ?thesis
    using res len val cover
    unfolding xs_def [symmetric] spc_def [symmetric] Let_def nc_def [symmetric]
    by (intro exI [of _ "wav\<lparr>m_data := ys\<rparr>"]) simp
qed

lemma short_buffer_untouched:
  assumes "length (m_data wav) < normalize_samples_per_chunk wav"
  shows "NormalizeAudioWaveform wav db_level = Inr wav"
proof (cases "m_data wav = []")
  case True
  then show ?thesis by (simp add: NormalizeAudioWaveform_def)
next
  case False
  have "length (m_data wav) div normalize_samples_per_chunk wav = 0" using assms by simp
  then show ?thesis
    using False assms
    by (simp add: NormalizeAudioWaveform_def Let_def normalize_chunks_def u32_def)
qed

section \<open>The conversion loop of the encoder\<close>

lemma float_to_int16_in_range:
  assumes "- 32769 < x" "x < 32768"
  shows "float_to_int16 x = Inr (if x < 0 then \<lceil>x\<rceil> else \<lfloor>x\<rfloor>)"
proof (cases "x < 0")
  case True
  have "- 32769 < \<lceil>x\<rceil>" using assms(1) by (simp add: less_ceiling_iff)
  moreover have "\<lceil>x\<rceil> \<le> 0" using True by (simp add: ceiling_le_iff)
  ultimately show ?thesis using True by (simp add: float_to_int16_def)
next
  case False
  have "\<lfloor>x\<rfloor> < 32768" using assms(2) by (simp add: floor_less_iff)
  moreover have "0 \<le> \<lfloor>x\<rfloor>" using False by simp
  ultimately show ?thesis using False by (simp add: float_to_int16_def)
qed

lemma float_to_int16_out_of_range:
  assumes "32768 \<le> x \<or> x \<le> - 32769"
  shows "float_to_int16 x = Inl CastOutOfRange"
proof -
  from assms consider "32768 \<le> x" | "x \<le> - 32769" by blast
  then show ?thesis
  proof cases
    case 1
    then have "32768 \<le> \<lfloor>x\<rfloor>" by (simp add: le_floor_iff)
    with 1 show ?thesis by (simp add: float_to_int16_def)
  next
    case 2
    then have "\<lceil>x\<rceil> \<le> - 32769" by (simp add: ceiling_le_iff)
    with 2 show ?thesis by (simp add: float_to_int16_def)
  qed
qed

lemma convert_prefix:
  assumes kn: "k \<le> n" and inb: "start + k \<le> length xs"
    and rng: "\<And>i. i < k \<Longrightarrow> - 32769 < xs ! (start + i) * 32768 \<and> xs ! (start + i) * 32768 < 32768"
  shows "\<exists>zs. for_loop (convert_sample xs start) [0..<k] (replicate n 0) = Inr zs \<and>
           length zs = n \<and>
           (\<forall>i<k. zs ! i = (if xs ! (start + i) * 32768 < 0 then \<lceil>xs ! (start + i) * 32768\<rceil>
                            else \<lfloor>xs ! (start + i) * 32768\<rfloor>))"
proof -
  let ?v = "\<lambda>i. if xs ! (start + i) * 32768 < 0 then \<lceil>xs ! (start + i) * 32768\<rceil>
                            else \<lfloor>xs ! (start + i) * 32768\<rfloor>"
  have "\<exists>zs. for_loop (convert_sample xs start) [0..<k] (replicate n 0) = Inr zs \<and>
           (length zs = n \<and> (\<forall>i<k. zs ! i = ?v i))"
  proof (rule for_loop_total [where P = "\<lambda>m zs. length zs = n \<and> (\<forall>i<m. zs ! i = ?v i)"])
    show "length (replicate n (0::int)) = n \<and> (\<forall>i<0. replicate n 0 ! i = ?v i)" by simp
  next
    fix m and zs :: "int list"
    assume m: "m < k" and inv: "length zs = n \<and> (\<forall>i<m. zs ! i = ?v i)"
    have "float_to_int16 (xs ! (start + m) * 32768) = Inr (?v m)"
      using rng [OF m] by (intro float_to_int16_in_range) simp_all
    then have body: "convert_sample xs start m zs = Inr (zs[m := ?v m])"
      using m kn inb inv by (simp add: convert_sample_def)
    have "(zs[m := ?v m]) ! i = ?v i" if "i < Suc m" for i
    proof (cases "i = m")
      case True
      then show ?thesis using m kn inv by simp
    next
      case False
      then show ?thesis using that inv by simp
    qed
    with body inv show "\<exists>s'. convert_sample xs start m zs = Inr s' \<and>
        (length s' = n \<and> (\<forall>i<Suc m. s' ! i = ?v i))"
      by simp
  qed
  then show ?thesis by blast
qed

text \<open>The loop stops at the first sample whose product the cast cannot take.\<close>

lemma convert_loop_fails:
  assumes inb: "start + n \<le> length xs" and i: "i < n"
    and out: "\<not> (- 32769 < xs ! (start + i) * 32768 \<and> xs ! (start + i) * 32768 < 32768)"
  shows "for_loop (convert_sample xs start) [0..<n] (replicate n 0) = Inl CastOutOfRange"
proof -
  let ?bad = "\<lambda>i. i < n \<and> \<not> (- 32769 < xs ! (start + i) * 32768 \<and> xs ! (start + i) * 32768 < 32768)"
  define m where "m = (LEAST i. ?bad i)"
  have bad: "?bad m" unfolding m_def using i out by (intro LeastI [of ?bad i]) simp
  have good: "- 32769 < xs ! (start + j) * 32768 \<and> xs ! (start + j) * 32768 < 32768"
    if "j < m" for j
  proof (rule ccontr)
    assume "\<not> ?thesis"
    with that bad have "?bad j" by simp
    then have "m \<le> j" unfolding m_def by (rule Least_le)
    with that show False by simp
  qed
  from bad have mn: "m < n" by simp
  from convert_prefix [of m n start xs] mn inb good obtain zs
    where zs: "for_loop (convert_sample xs start) [0..<m] (replicate n 0) = Inr zs"
      "length zs = n"
    by auto
  have "32768 \<le> xs ! (start + m) * 32768 \<or> xs ! (start + m) * 32768 \<le> - 32769"
    using bad by auto
  then have "float_to_int16 (xs ! (start + m) * 32768) = Inl CastOutOfRange"
    by (rule float_to_int16_out_of_range)
  then have body: "convert_sample xs start m zs = Inl CastOutOfRange"
    using mn inb zs(2) by (simp add: convert_sample_def)
  have "[0..<n] = [0..<m] @ m # [Suc m..<n]"
    using mn by (metis le_add1 less_imp_add_positive upt_add_eq_append upt_conv_Cons zero_le)
  then show ?thesis
    by (simp add: for_loop_append zs(1) body)
qed

section \<open>Inputs on which the code departs from its comments\<close>

lemmas segment_eval =
  FindSegmentsInAudioWaveform_def segment_samples_per_chunk_def upt_rec chunk_at_def u32_def
  standard_deviation_def FindMinMaxSamples_def FLT_MAX_def tick_body_def recent_counts_def
  recent_loop.simps i32_def u32_sub_def recent_count_def louds_to_start_def quiets_to_stop_def

lemmas normalize_eval =
  NormalizeAudioWaveform_def normalize_samples_per_chunk_def round_to_24_bits_def
  bit_length.simps normalize_chunks_def
  normalize_chunk_def peak_sample_def u32_def u32_sub_def chunk_peak_def release_gain_def
  attack_gain_def scale_sample_def db_to_linear_def pass_count_def upt_rec Let_def

text \<open>
  Claim C1 (normalizer ceiling). The claim: for a buffer with at least one full chunk and a
  level in \<open>[-100, 0]\<close>, no sample of the normalised buffer, trailing remainder included,
  exceeds \<open>targetLinear * 1.001\<close> in absolute value.

  The code takes the peak of the last chunk over its first \<open>samples_per_chunk\<close> samples only
  and applies the resulting gain up to the end of the buffer. At 200 Hz (chunks of 2 samples)
  and 0 dB (target 1), the buffer \<open>[1/2, 1/2, 1]\<close> has one full chunk of peak \<open>1/2\<close>; the gain
  is released to \<open>1.05\<close> and the remainder sample \<open>1\<close> becomes \<open>21/20\<close>, above
  \<open>1 * 1.001\<close>. The samples of the full chunks do end at or below the target in exact
  arithmetic (lemma \<open>full_chunks_below_target\<close>).
\<close>

theorem normalize_ceiling_fails_on_remainder:
  "NormalizeAudioWaveform \<lparr>m_frequency = 200, m_data = [1/2, 1/2, 1]\<rparr> 0
     = Inr \<lparr>m_frequency = 200, m_data = [21/40, 21/40, 21/20]\<rparr>
   \<and> length [1/2, 1/2, 1 :: real] \<ge> normalize_samples_per_chunk \<lparr>m_frequency = 200, m_data = [1/2, 1/2, 1]\<rparr>
   \<and> \<bar>21/20 :: real\<bar> > db_to_linear 0 * 1.001"
  by (simp add: normalize_eval)

text \<open>
  Claim C2 (segmenter emptiness). The claim: a buffer whose samples are all zero yields an
  empty segment list, for every sample rate and length.

  On a silent buffer every standard deviation is 0 and so is the threshold; the test
  \<^verbatim>\<open>stddev < threshold\<close> is false, so every chunk of index above 0 counts as loud. With 13
  chunks (13 zero samples at 20 Hz) a segment opens at tick 11 and is closed at the last tick.
\<close>

theorem silent_buffer_yields_segment:
  "FindSegmentsInAudioWaveform
     \<lparr>m_frequency = 20, m_data = [0, 0, 0, 0, 0, 0, 0, 0, 0, 0, 0, 0, 0]\<rparr>
   = Inr [\<lparr>m_start = 1, m_count = 11\<rparr>]"
  by (simp add: segment_eval)

text \<open>
  Claim C3 (degenerate input). The claim: with a zero-length buffer or a zero sample rate both
  functions complete with an empty result or as a no-op, and neither divides by zero.

  A sample rate of 0 gives \<open>samples_per_chunk = 0\<close>, and both functions divide the buffer
  size by it: the segmenter for every buffer, the empty one included, the normalizer for
  every buffer that is not empty. The empty buffer alone is handled as the claim says
  (lemma \<open>empty_buffer_no_op\<close>).
\<close>

theorem zero_rate_divides_by_zero:
  "FindSegmentsInAudioWaveform \<lparr>m_frequency = 0, m_data = []\<rparr> = Inl DivideByZero
   \<and> NormalizeAudioWaveform \<lparr>m_frequency = 0, m_data = [0]\<rparr> 0 = Inl DivideByZero"
  by (simp add: segment_eval normalize_eval)

text \<open>
  Claim C6 (remainder coverage). The claim: when the length of the buffer is no multiple of
  the chunk size (positive sample rate), every sample is gain-adjusted by the pass.

  The chunk loop runs once per full chunk and scales the remainder in the pass of the last
  one (lemma \<open>full_chunk_buffer_scaled\<close>). A buffer shorter than one chunk has no full
  chunk and gets no pass at all (lemma \<open>short_buffer_untouched\<close>): at 200 Hz (chunks of 2
  samples) and 0 dB the one-sample buffer \<open>[2]\<close> is returned as it is, above the target 1.
\<close>

theorem short_buffer_not_normalized:
  "NormalizeAudioWaveform \<lparr>m_frequency = 200, m_data = [2]\<rparr> 0
     = Inr \<lparr>m_frequency = 200, m_data = [2]\<rparr>
   \<and> normalize_samples_per_chunk \<lparr>m_frequency = 200, m_data = [2]\<rparr> = 2
   \<and> \<not> length (m_data \<lparr>m_frequency = 200, m_data = [2 :: real]\<rparr>) mod 2 = 0
   \<and> [0..<u32 (length (m_data \<lparr>m_frequency = 200, m_data = [2 :: real]\<rparr>) div 2)] = []
   \<and> \<bar>2 :: real\<bar> > db_to_linear 0 * 1.001"
  by (simp add: normalize_eval)

section \<open>The segmenter\<close>

text \<open>
  Claim C4 (hysteresis window). The claim: at every tick the ten window positions
  \<open>tick, tick - 1, ..., tick - 9\<close> are classified so that exactly the positions of index
  below 0 are quiet by convention, every position of index 0 or more is compared with the
  threshold, and the two counters add up to 10.

  The inner loop tests \<^verbatim>\<open>j > 0\<close>: position 0 is quiet by convention too. As amended: the
  positions of index 0 or less are quiet, a position of index above 0 is loud exactly when
  the standard deviation of its chunk is not below the threshold, \<open>recent_quiet\<close> and
  \<open>recent_loud\<close> count the two kinds over the window, and their sum is 10 (for a tick of the
  loop, below \<open>2 ^ 31\<close> chunks).
\<close>

theorem recent_counts_window:
  assumes "tick < length sd" and "length sd < 2 ^ 31"
  shows "recent_counts sd thr tick =
           Inr (length (filter (\<lambda>j. \<not> window_loud sd thr j) [int tick - 9..int tick]),
                length (filter (window_loud sd thr) [int tick - 9..int tick]))
         \<and> length (filter (\<lambda>j. \<not> window_loud sd thr j) [int tick - 9..int tick])
           + length (filter (window_loud sd thr) [int tick - 9..int tick]) = 10
         \<and> (\<forall>j. window_loud sd thr j \<longleftrightarrow> 0 < j \<and> \<not> sd ! nat j < thr)"
proof -
  have sum: "length (filter (\<lambda>j. \<not> window_loud sd thr j) [int tick - 9..int tick])
          + length (filter (window_loud sd thr) [int tick - 9..int tick]) = 10"
    using sum_length_filter_compl [of "window_loud sd thr" "[int tick - 9..int tick]"]
    by simp
  then have "10 - loud_in_window sd thr tick
      = length (filter (\<lambda>j. \<not> window_loud sd thr j) [int tick - 9..int tick])"
    by (simp add: loud_in_window_def)
  with recent_counts_eq [OF assms, of thr] sum show ?thesis
    by (simp add: loud_in_window_def window_loud_def)
qed

theorem recent_counts_window_witness:
  "(3::nat) < length [0, 1, 1, 0 :: real] \<and> length [0, 1, 1, 0 :: real] < 2 ^ 31
   \<and> recent_counts [0, 1, 1, 0] (1/20) 3 = Inr (8, 2)
   \<and> length (filter (window_loud [0, 1, 1, 0] (1/20)) [int 3 - 9..int 3]) = 2"
  using recent_counts_window [of 3 "[0, 1, 1, 0]" "1/20"]
  by (simp add: window_loud_def upto_rec1)

text \<open>
  The claim as stated fails at tick 0 of the 40 Hz buffer \<open>[1, -1]\<close>: its only chunk has
  standard deviation 1, not below the threshold \<open>1/20\<close>, so the claim counts one loud
  position; the code counts ten quiet ones.
\<close>

theorem window_index_zero_counterexample:
  "stddev_chunks [1, -1] 2 [0] = Inr [1]
   \<and> recent_counts [1] (1/20) 0 = Inr (10, 0)
   \<and> claimed_loud_in_window [1] (1/20) 0 = 1"
  by (simp add: segment_eval claimed_loud_in_window_def claimed_window_loud_def upto_rec1)




text \<open>
  Claim C10 (segment well-formedness). For every buffer and a chunk size of at least 1:
  whenever the window loop returns its counters, \<open>recent_loud\<close> is at most \<open>tick\<close>, so the
  unsigned subtraction \<open>tick - recent_loud\<close> does not wrap, and the loop does return at every
  tick of the function; every segment that \<^verbatim>\<open>FindSegmentsInAudioWaveform\<close> returns has a
  positive count and ends within the buffer. The function returns on every buffer of fewer
  than \<open>2 ^ 32\<close> samples; on a larger one the loop of \<^verbatim>\<open>FindMinMaxSamples\<close> does not end and
  no segment is returned.
\<close>

theorem segments_returned_well_formed:
  assumes "0 < segment_samples_per_chunk wav"
  shows "(\<forall>segs. FindSegmentsInAudioWaveform wav = Inr segs \<longrightarrow>
            (\<forall>seg \<in> set segs. 0 < m_count seg \<and>
                m_start seg + m_count seg \<le> length (m_data wav)))
         \<and> (if length (m_data wav) < 2 ^ 32
             then \<exists>segs. FindSegmentsInAudioWaveform wav = Inr segs
             else FindSegmentsInAudioWaveform wav = Inl NoReturn)
         \<and> (tick < length sd \<longrightarrow> (\<exists>rq rl. recent_counts sd thr tick = Inr (rq, rl)))
         \<and> (\<forall>rq rl. recent_counts sd thr tick = Inr (rq, rl) \<longrightarrow>
               rl \<le> tick \<and> (tick < 2 ^ 32 \<longrightarrow> u32_sub tick rl = tick - rl))"
proof (intro conjI)
  define spc where "spc = segment_samples_per_chunk wav"
  define n where "n = length (m_data wav)"
  note wf = FindSegments_wf [OF assms, folded spc_def n_def]
  show "\<forall>segs. FindSegmentsInAudioWaveform wav = Inr segs \<longrightarrow>
            (\<forall>seg \<in> set segs. 0 < m_count seg \<and>
                m_start seg + m_count seg \<le> length (m_data wav))"
  proof (intro allI impI ballI)
    fix segs seg
    assume run: "FindSegmentsInAudioWaveform wav = Inr segs" and seg: "seg \<in> set segs"
    have size: "n < 2 ^ 32"
    proof (rule ccontr)
      assume "\<not> n < 2 ^ 32"
      with wf have "FindSegmentsInAudioWaveform wav = Inl NoReturn" by simp
      with run show False by simp
    qed
    with wf run obtain started where "tick_wf spc (n div spc) (segs, started)" by auto
    with seg have a: "0 < m_count seg" and b: "m_start seg + m_count seg \<le> (n div spc) * spc"
      by (auto simp: tick_wf_def)
    have "(n div spc) * spc \<le> n" by simp
    with b have "m_start seg + m_count seg \<le> n" by (rule le_trans)
    with a show "0 < m_count seg \<and> m_start seg + m_count seg \<le> length (m_data wav)"
      unfolding n_def by simp
  qed
  show "if length (m_data wav) < 2 ^ 32
             then \<exists>segs. FindSegmentsInAudioWaveform wav = Inr segs
             else FindSegmentsInAudioWaveform wav = Inl NoReturn"
    using wf unfolding n_def by (auto split: if_splits)
  show "tick < length sd \<longrightarrow> (\<exists>rq rl. recent_counts sd thr tick = Inr (rq, rl))"
    using recent_counts_returns [of tick sd thr] by blast
  show "\<forall>rq rl. recent_counts sd thr tick = Inr (rq, rl) \<longrightarrow>
               rl \<le> tick \<and> (tick < 2 ^ 32 \<longrightarrow> u32_sub tick rl = tick - rl)"
  proof (intro allI impI conjI)
    fix rq rl
    assume "recent_counts sd thr tick = Inr (rq, rl)"
    then show le: "rl \<le> tick" by (rule recent_counts_loud_le)
    assume "tick < 2 ^ 32"
    with le show "u32_sub tick rl = tick - rl" by (rule u32_sub_id)
  qed
qed

theorem segments_returned_well_formed_witness:
  "0 < segment_samples_per_chunk \<lparr>m_frequency = 40, m_data =
      [0, 0, 0, 0, 1, -1, 1, -1, 1, -1, 0, 0, 0, 0, 0, 0, 0, 0, 0, 0, 0 ,0, 0, 0, 0, 0, 0, 0, 0, 0]\<rparr>
   \<and> FindSegmentsInAudioWaveform \<lparr>m_frequency = 40, m_data =
      [0, 0, 0, 0, 1, -1, 1, -1, 1, -1, 0, 0, 0, 0, 0, 0, 0, 0, 0, 0, 0 ,0, 0, 0, 0, 0, 0, 0, 0, 0]\<rparr>
        = Inr [\<lparr>m_start = 2, m_count = 22\<rparr>]
   \<and> 0 < m_count \<lparr>m_start = 2, m_count = 22\<rparr>
   \<and> m_start \<lparr>m_start = 2, m_count = 22\<rparr> + m_count \<lparr>m_start = 2, m_count = 22\<rparr>
        \<le> length [0, 0, 0, 0, 1, -1, 1, -1, 1, -1, 0, 0, 0, 0, 0, 0, 0, 0, 0, 0, 0 ,0, 0, 0, 0, 0, 0, 0, 0, 0 :: real]
   \<and> (4::nat) < length [0, 0, 1, 1, 1 :: real]
   \<and> recent_counts [0, 0, 1, 1, 1] (1/20) 4 = Inr (7, 3)
   \<and> (3::nat) \<le> 4 \<and> (4::nat) < 2 ^ 32 \<and> u32_sub 4 3 = 4 - 3"
proof -
  let ?w = "\<lparr>m_frequency = 40, m_data =
      [0, 0, 0, 0, 1, -1, 1, -1, 1, -1, 0, 0, 0, 0, 0, 0, 0, 0, 0, 0, 0 ,0, 0, 0, 0, 0, 0, 0, 0, 0 :: real]\<rparr>"
  have ev: "FindSegmentsInAudioWaveform ?w = Inr [\<lparr>m_start = 2, m_count = 22\<rparr>]"
    by (simp add: segment_eval)
  have rc: "recent_counts [0, 0, 1, 1, 1] (1/20) 4 = Inr (7, 3)"
    by (simp add: segment_eval)
  have spc: "0 < segment_samples_per_chunk ?w" by (simp add: segment_samples_per_chunk_def)
  from segments_returned_well_formed [OF spc, of 4 "[0, 0, 1, 1, 1]" "1/20"] ev rc
  have "0 < m_count \<lparr>m_start = 2, m_count = 22\<rparr> \<and>
        m_start \<lparr>m_start = 2, m_count = 22\<rparr> + m_count \<lparr>m_start = 2, m_count = 22\<rparr>
          \<le> length (m_data ?w)"
    and "(3::nat) \<le> 4 \<and> ((4::nat) < 2 ^ 32 \<longrightarrow> u32_sub 4 3 = 4 - 3)"
    by auto
  with ev rc spc show ?thesis by simp
qed

section \<open>The normalizer\<close>

text \<open>
  Claim C7 (soft ceiling of the gain). For a level in \<open>[-100, 0]\<close> and every buffer and chunk
  size: the chunk loop starts from gain 1; after any number \<open>k\<close> of its passes the gain is at
  most 105; the release step changes the gain only when it is below 100, and then
  multiplies it by 1.05; the attack step, when it changes the gain, sets it to at most
  \<open>targetLinear / 0.02\<close>.
\<close>

theorem gain_soft_ceiling:
  assumes "- 100 \<le> db" and "db \<le> 0" and "k \<le> u32 (length xs div spc)"
  shows "(\<exists>g ys. normalize_chunks (db_to_linear db) spc xs [0..<k] = Inr (g, ys) \<and> g \<le> 105)
         \<and> normalize_chunks (db_to_linear db) spc xs [] = Inr (1, xs)
         \<and> (release_gain (db_to_linear db) p g \<noteq> g \<longrightarrow>
               g < 100 \<and> release_gain (db_to_linear db) p g = g * 1.05)
         \<and> (attack_gain (db_to_linear db) p g \<noteq> g \<longrightarrow>
               attack_gain (db_to_linear db) p g \<le> db_to_linear db / 0.02)"
proof -
  from db_to_linear_range [OF assms(2)]
  have m: "0 \<le> db_to_linear db" "db_to_linear db \<le> 1" by simp_all
  have "\<exists>g ys. normalize_chunks (db_to_linear db) spc xs [0..<k] = Inr (g, ys) \<and>
           length ys = length xs \<and> g \<le> 105"
  proof (rule normalize_chunks_total [OF assms(3), where Q = "\<lambda>g. g \<le> 105"])
    show "(1::real) \<le> 105" by simp
  next
    fix p g :: real
    assume "g \<le> 105"
    then have "release_gain (db_to_linear db) p g \<le> 105" by (rule release_gain_le)
    with m show "attack_gain (db_to_linear db) p (release_gain (db_to_linear db) p g) \<le> 105"
      by (rule attack_gain_le)
  qed
  then have a: "\<exists>g ys. normalize_chunks (db_to_linear db) spc xs [0..<k] = Inr (g, ys) \<and> g \<le> 105"
    by blast
  have b: "normalize_chunks (db_to_linear db) spc xs [] = Inr (1, xs)"
    by (simp add: normalize_chunks_def)
  have c: "release_gain (db_to_linear db) p g \<noteq> g \<longrightarrow>
               g < 100 \<and> release_gain (db_to_linear db) p g = g * 1.05"
    by (simp add: release_gain_def)
  have d: "attack_gain (db_to_linear db) p g \<noteq> g \<longrightarrow>
               attack_gain (db_to_linear db) p g \<le> db_to_linear db / 0.02"
    using attack_gain_changed [OF m(1)] by blast
  from a b c d show ?thesis by blast
qed

theorem gain_soft_ceiling_witness:
  "- 100 \<le> (0::real) \<and> (0::real) \<le> 0 \<and> (2::nat) \<le> u32 (length [1/2, 1/2, 1/4, 1/4, 1 :: real] div 2)
   \<and> (\<exists>g ys. normalize_chunks (db_to_linear 0) 2 [1/2, 1/2, 1/4, 1/4, 1] [0..<2] = Inr (g, ys) \<and>
         g = 441/400 \<and> g \<le> 105)
   \<and> release_gain (db_to_linear 0) (1/2) 1 = 21/20
   \<and> attack_gain (db_to_linear 0) 2 1 = 1/2"
proof -
  have ev: "normalize_chunks (db_to_linear 0) 2 [1/2, 1/2, 1/4, 1/4, 1] [0..<2]
      = Inr (441/400, [21/40, 21/40, 441/1600, 441/1600, 441/400])"
    by (simp add: normalize_eval)
  have k: "(2::nat) \<le> u32 (length [1/2, 1/2, 1/4, 1/4, 1 :: real] div 2)"
    by (simp add: u32_def)
  from gain_soft_ceiling [of 0 2 "[1/2, 1/2, 1/4, 1/4, 1]" 2 "1/2" 1] k
  show ?thesis using ev by (simp add: release_gain_def attack_gain_def db_to_linear_def)
qed

text \<open>
  Claim C8 (frame). On the program state, \<^verbatim>\<open>FindSegmentsInAudioWaveform\<close> hands back the
  waveform it received, samples and sample rate, whenever it returns; it returns the
  segments of the function on the waveform, and it returns for every chunk size of at
  least 1 on fewer than \<open>2 ^ 32\<close> samples. \<^verbatim>\<open>NormalizeAudioWaveform\<close> returns for every empty
  buffer and for every chunk size of at least 1, and whenever it returns, the buffer has the
  length it had and the sample frequency is the same.
\<close>

theorem segmenter_and_normalizer_frame:
  "(\<forall>segs wav'. FindSegmentsInAudioWaveform_st wav = Inr (segs, wav') \<longrightarrow>
       wav' = wav \<and> FindSegmentsInAudioWaveform wav = Inr segs)
   \<and> (\<forall>segs. FindSegmentsInAudioWaveform wav = Inr segs \<longrightarrow>
         FindSegmentsInAudioWaveform_st wav = Inr (segs, wav))
   \<and> (0 < segment_samples_per_chunk wav \<and> length (m_data wav) < 2 ^ 32 \<longrightarrow>
         (\<exists>segs. FindSegmentsInAudioWaveform_st wav = Inr (segs, wav)))
   \<and> (m_data wav = [] \<or> 0 < normalize_samples_per_chunk wav \<longrightarrow>
         (\<exists>wav'. NormalizeAudioWaveform wav db_level = Inr wav'))
   \<and> (\<forall>wav'. NormalizeAudioWaveform wav db_level = Inr wav' \<longrightarrow>
         length (m_data wav') = length (m_data wav) \<and> m_frequency wav' = m_frequency wav)"
proof (intro conjI)
  show "\<forall>segs wav'. FindSegmentsInAudioWaveform_st wav = Inr (segs, wav') \<longrightarrow>
       wav' = wav \<and> FindSegmentsInAudioWaveform wav = Inr segs"
    by (auto simp: FindSegments_st_eq split: sum.splits)
  show "\<forall>segs. FindSegmentsInAudioWaveform wav = Inr segs \<longrightarrow>
         FindSegmentsInAudioWaveform_st wav = Inr (segs, wav)"
    by (simp add: FindSegments_st_eq)
  show "0 < segment_samples_per_chunk wav \<and> length (m_data wav) < 2 ^ 32 \<longrightarrow>
         (\<exists>segs. FindSegmentsInAudioWaveform_st wav = Inr (segs, wav))"
  proof
    assume a: "0 < segment_samples_per_chunk wav \<and> length (m_data wav) < 2 ^ 32"
    then have "0 < segment_samples_per_chunk wav" by simp
    from FindSegments_wf [OF this] a obtain segs
      where "FindSegmentsInAudioWaveform wav = Inr segs"
      by auto
    then show "\<exists>segs. FindSegmentsInAudioWaveform_st wav = Inr (segs, wav)"
      by (simp add: FindSegments_st_eq)
  qed
  have norm: "(m_data wav = [] \<or> 0 < normalize_samples_per_chunk wav \<longrightarrow>
         (\<exists>wav'. NormalizeAudioWaveform wav db_level = Inr wav'))
   \<and> (\<forall>wav'. NormalizeAudioWaveform wav db_level = Inr wav' \<longrightarrow>
         length (m_data wav') = length (m_data wav) \<and> m_frequency wav' = m_frequency wav)"
  proof (cases "m_data wav = [] \<or> normalize_samples_per_chunk wav = 0")
    case True
    then show ?thesis by (auto simp: NormalizeAudioWaveform_def Let_def)
  next
    case False
    define spc where "spc = normalize_samples_per_chunk wav"
    have "\<exists>g ys. normalize_chunks (db_to_linear db_level) spc (m_data wav)
                    [0..<u32 (length (m_data wav) div spc)] = Inr (g, ys) \<and>
             length ys = length (m_data wav) \<and> True"
      by (rule normalize_chunks_total) simp_all
    then obtain g ys where run: "normalize_chunks (db_to_linear db_level) spc (m_data wav)
                    [0..<u32 (length (m_data wav) div spc)] = Inr (g, ys)"
      and len: "length ys = length (m_data wav)"
      by blast
    have "NormalizeAudioWaveform wav db_level = Inr (wav\<lparr>m_data := ys\<rparr>)"
      using False by (simp add: NormalizeAudioWaveform_def Let_def spc_def [symmetric] run)
    with len show ?thesis by auto
  qed
  from norm show "m_data wav = [] \<or> 0 < normalize_samples_per_chunk wav \<longrightarrow>
         (\<exists>wav'. NormalizeAudioWaveform wav db_level = Inr wav')" by blast
  from norm show "\<forall>wav'. NormalizeAudioWaveform wav db_level = Inr wav' \<longrightarrow>
         length (m_data wav') = length (m_data wav) \<and> m_frequency wav' = m_frequency wav"
    by blast
qed

theorem segmenter_and_normalizer_frame_witness:
  "FindSegmentsInAudioWaveform_st
     \<lparr>m_frequency = 40, m_data = [0, 0, 0, 0, 1, -1, 1, -1, 1, -1, 0, 0, 0, 0, 0, 0, 0, 0, 0, 0,
        0, 0, 0, 0, 0, 0, 0, 0, 0, 0]\<rparr>
   = Inr ([\<lparr>m_start = 2, m_count = 22\<rparr>],
          \<lparr>m_frequency = 40, m_data = [0, 0, 0, 0, 1, -1, 1, -1, 1, -1, 0, 0, 0, 0, 0, 0, 0, 0,
             0, 0, 0, 0, 0, 0, 0, 0, 0, 0, 0, 0]\<rparr>)
   \<and> FindSegmentsInAudioWaveform
     \<lparr>m_frequency = 40, m_data = [0, 0, 0, 0, 1, -1, 1, -1, 1, -1, 0, 0, 0, 0, 0, 0, 0, 0, 0, 0,
        0, 0, 0, 0, 0, 0, 0, 0, 0, 0]\<rparr> = Inr [\<lparr>m_start = 2, m_count = 22\<rparr>]
   \<and> 0 < normalize_samples_per_chunk \<lparr>m_frequency = 200, m_data = [1/2, 1/2, 1]\<rparr>
   \<and> NormalizeAudioWaveform \<lparr>m_frequency = 200, m_data = [1/2, 1/2, 1]\<rparr> 0
       = Inr \<lparr>m_frequency = 200, m_data = [21/40, 21/40, 21/20]\<rparr>
   \<and> length (m_data \<lparr>m_frequency = 200, m_data = [21/40, 21/40, 21/20 :: real]\<rparr>)
       = length (m_data \<lparr>m_frequency = 200, m_data = [1/2, 1/2, 1 :: real]\<rparr>)
   \<and> m_frequency \<lparr>m_frequency = 200, m_data = [21/40, 21/40, 21/20 :: real]\<rparr>
       = m_frequency \<lparr>m_frequency = 200, m_data = [1/2, 1/2, 1 :: real]\<rparr>"
proof -
  let ?s = "\<lparr>m_frequency = 40, m_data = [0, 0, 0, 0, 1, -1, 1, -1, 1, -1, 0, 0, 0, 0, 0, 0, 0, 0,
             0, 0, 0, 0, 0, 0, 0, 0, 0, 0, 0, 0 :: real]\<rparr>"
  have rep: "replicate 15 (0::real) = [0, 0, 0, 0, 0, 0, 0, 0, 0, 0, 0, 0, 0, 0, 0]"
    by (simp add: numeral_eq_Suc)
  have st: "FindSegmentsInAudioWaveform_st ?s = Inr ([\<lparr>m_start = 2, m_count = 22\<rparr>], ?s)"
    by (simp add: FindSegmentsInAudioWaveform_st_def stddev_pass_def tick_pass_def rep
        segment_eval Let_def)
  have ev: "NormalizeAudioWaveform \<lparr>m_frequency = 200, m_data = [1/2, 1/2, 1]\<rparr> 0
       = Inr \<lparr>m_frequency = 200, m_data = [21/40, 21/40, 21/20]\<rparr>"
    by (simp add: normalize_eval)
  have spc: "0 < normalize_samples_per_chunk \<lparr>m_frequency = 200, m_data = [1/2, 1/2, 1]\<rparr>"
    by (simp add: normalize_samples_per_chunk_def round_to_24_bits_def bit_length.simps)
  from segmenter_and_normalizer_frame [of ?s] st
  have a: "FindSegmentsInAudioWaveform ?s = Inr [\<lparr>m_start = 2, m_count = 22\<rparr>]" by blast
  from segmenter_and_normalizer_frame [of "\<lparr>m_frequency = 200, m_data = [1/2, 1/2, 1]\<rparr>" 0] ev
  have b: "length (m_data \<lparr>m_frequency = 200, m_data = [21/40, 21/40, 21/20 :: real]\<rparr>)
       = length (m_data \<lparr>m_frequency = 200, m_data = [1/2, 1/2, 1 :: real]\<rparr>)
     \<and> m_frequency \<lparr>m_frequency = 200, m_data = [21/40, 21/40, 21/20 :: real]\<rparr>
       = m_frequency \<lparr>m_frequency = 200, m_data = [1/2, 1/2, 1 :: real]\<rparr>"
    by blast
  from st a spc ev b show ?thesis by blast
qed

section \<open>The encoder\<close>

text \<open>
  Claim C9 (encoder conversion). The claim: \<^verbatim>\<open>WriteToWAVFile\<close> converts each sample to 16-bit
  PCM by \<open>round (sample * 32768)\<close>, without clamping.

  The conversion is the cast \<^verbatim>\<open>static_cast<int16_t>(sample * 32768)\<close>, which discards the
  fractional part. As amended, for a call with a file name whose \<open>n\<close> samples from
  \<open>start_sample\<close> on lie in the buffer (\<open>n\<close> is \<open>num_samples\<close>, or for \<open>num_samples = 0\<close> the rest
  of the buffer as an \<^verbatim>\<open>unsigned\<close>): when every product \<open>sample * 32768\<close> truncates to a
  16-bit value, the samples handed to \<^verbatim>\<open>WAVFileWrite\<close> are the products truncated towards
  zero; when one does not, nothing is clamped: the cast is undefined.
\<close>

theorem encoder_truncates_without_clamping:
  assumes "start_sample < length (m_data wav)"
    and "n = (if num_samples = 0 then u32 (length (m_data wav) - start_sample) else num_samples)"
    and "start_sample + n \<le> length (m_data wav)"
  shows "if \<forall>i<n. - 32769 < m_data wav ! (start_sample + i) * 32768 \<and>
                  m_data wav ! (start_sample + i) * 32768 < 32768
         then \<exists>samples.
                WriteToWAVFile wav True start_sample num_samples = Inr (Some samples) \<and>
                length samples = n \<and>
                (\<forall>i<n. samples ! i =
                   (if m_data wav ! (start_sample + i) * 32768 < 0
                    then \<lceil>m_data wav ! (start_sample + i) * 32768\<rceil>
                    else \<lfloor>m_data wav ! (start_sample + i) * 32768\<rfloor>))
         else WriteToWAVFile wav True start_sample num_samples = Inl CastOutOfRange"
proof -
  have ne: "m_data wav \<noteq> []" using assms(1) by auto
  have "u32 (start_sample + n) \<le> start_sample + n" by (rule u32_le)
  then have chk: "\<not> u32 (start_sample + n) > length (m_data wav)" using assms(3) by simp
  have w: "WriteToWAVFile wav True start_sample num_samples =
      (case for_loop (convert_sample (m_data wav) start_sample) [0..<n] (replicate n 0) of
         Inl e \<Rightarrow> Inl e | Inr samples \<Rightarrow> Inr (Some samples))"
    using ne assms(1) chk unfolding assms(2) by (simp add: WriteToWAVFile_def Let_def)
  show ?thesis
  proof (cases "\<forall>i<n. - 32769 < m_data wav ! (start_sample + i) * 32768 \<and>
                  m_data wav ! (start_sample + i) * 32768 < 32768")
    case True
    from convert_prefix [of n n start_sample "m_data wav"] assms(3) True
    obtain zs where "for_loop (convert_sample (m_data wav) start_sample) [0..<n] (replicate n 0) = Inr zs"
      "length zs = n"
      "\<forall>i<n. zs ! i = (if m_data wav ! (start_sample + i) * 32768 < 0
                    then \<lceil>m_data wav ! (start_sample + i) * 32768\<rceil>
                    else \<lfloor>m_data wav ! (start_sample + i) * 32768\<rfloor>)"
      by auto
    with True w show ?thesis by auto
  next
    case False
    then obtain i where "i < n"
      "\<not> (- 32769 < m_data wav ! (start_sample + i) * 32768 \<and>
          m_data wav ! (start_sample + i) * 32768 < 32768)"
      by blast
    from convert_loop_fails [OF assms(3) this]
    have "WriteToWAVFile wav True start_sample num_samples = Inl CastOutOfRange"
      by (simp add: w)
    with False show ?thesis by simp
  qed
qed

theorem encoder_truncates_without_clamping_witness:
  "(0::nat) < length [3/131072, - 3/131072, 1/2 :: real]
   \<and> (3::nat) = (if (0::nat) = 0 then u32 (length [3/131072, - 3/131072, 1/2 :: real] - 0) else 0)
   \<and> (0::nat) + 3 \<le> length [3/131072, - 3/131072, 1/2 :: real]
   \<and> WriteToWAVFile \<lparr>m_frequency = 200, m_data = [3/131072, - 3/131072, 1/2]\<rparr> True 0 0
        = Inr (Some [0, 0, 16384])
   \<and> (\<exists>samples. WriteToWAVFile \<lparr>m_frequency = 200, m_data = [3/131072, - 3/131072, 1/2]\<rparr> True 0 0
         = Inr (Some samples) \<and> length samples = 3 \<and> samples ! 1 = \<lceil>- 3/4 :: real\<rceil>)
   \<and> (0::nat) < length [1/2, 1 :: real]
   \<and> (2::nat) = (if (0::nat) = 0 then u32 (length [1/2, 1 :: real] - 0) else 0)
   \<and> (0::nat) + 2 \<le> length [1/2, 1 :: real]
   \<and> WriteToWAVFile \<lparr>m_frequency = 200, m_data = [1/2, 1]\<rparr> True 0 0 = Inl CastOutOfRange"
proof -
  let ?w = "\<lparr>m_frequency = 200, m_data = [3/131072, - 3/131072, 1/2 :: real]\<rparr>"
  let ?v = "\<lparr>m_frequency = 200, m_data = [1/2, 1 :: real]\<rparr>"
  have rep: "replicate 3 (0::int) = [0, 0, 0]" by (simp add: numeral_3_eq_3)
  have ev: "WriteToWAVFile ?w True 0 0 = Inr (Some [0, 0, 16384])"
    by (simp add: WriteToWAVFile_def convert_sample_def float_to_int16_def u32_def upt_rec rep)
  have h1: "(0::nat) < length (m_data ?w)" by simp
  have h2: "(3::nat) = (if (0::nat) = 0 then u32 (length (m_data ?w) - 0) else 0)"
    by (simp add: u32_def)
  have h3: "(0::nat) + 3 \<le> length (m_data ?w)" by simp
  have rng: "\<forall>i<3. - 32769 < m_data ?w ! (0 + i) * 32768 \<and> m_data ?w ! (0 + i) * 32768 < 32768"
  proof (intro allI impI)
    fix i :: nat assume "i < 3"
    then consider "i = 0" | "i = 1" | "i = 2" by linarith
    then show "- 32769 < m_data ?w ! (0 + i) * 32768 \<and> m_data ?w ! (0 + i) * 32768 < 32768"
      by cases simp_all
  qed
  have "\<exists>samples. WriteToWAVFile ?w True 0 0 = Inr (Some samples) \<and> length samples = 3 \<and>
      (\<forall>i<3. samples ! i = (if m_data ?w ! (0 + i) * 32768 < 0
                then \<lceil>m_data ?w ! (0 + i) * 32768\<rceil> else \<lfloor>m_data ?w ! (0 + i) * 32768\<rfloor>))"
    using encoder_truncates_without_clamping [OF h1 h2 h3] unfolding if_P [OF rng] .
  then obtain samples where s: "WriteToWAVFile ?w True 0 0 = Inr (Some samples)"
    "length samples = 3"
    "\<forall>i<3. samples ! i = (if m_data ?w ! (0 + i) * 32768 < 0
                then \<lceil>m_data ?w ! (0 + i) * 32768\<rceil> else \<lfloor>m_data ?w ! (0 + i) * 32768\<rfloor>)"
    by blast
  from s(3) have "samples ! 1 = (if m_data ?w ! (0 + 1) * 32768 < 0
                then \<lceil>m_data ?w ! (0 + 1) * 32768\<rceil> else \<lfloor>m_data ?w ! (0 + 1) * 32768\<rfloor>)"
    by (simp del: One_nat_def)
  then have s1: "samples ! 1 = \<lceil>- 3/4 :: real\<rceil>" by simp
  have g1: "(0::nat) < length (m_data ?v)" by simp
  have g2: "(2::nat) = (if (0::nat) = 0 then u32 (length (m_data ?v) - 0) else 0)"
    by (simp add: u32_def)
  have g3: "(0::nat) + 2 \<le> length (m_data ?v)" by simp
  have neg: "\<not> (\<forall>i<2. - 32769 < m_data ?v ! (0 + i) * 32768 \<and> m_data ?v ! (0 + i) * 32768 < 32768)"
  proof
    assume a: "\<forall>i<2. - 32769 < m_data ?v ! (0 + i) * 32768 \<and> m_data ?v ! (0 + i) * 32768 < 32768"
    have "(1::nat) < 2" by simp
    with a have "m_data ?v ! (0 + 1) * 32768 < 32768" by blast
    then show False by simp
  qed
  have out: "WriteToWAVFile ?v True 0 0 = Inl CastOutOfRange"
    using encoder_truncates_without_clamping [OF g1 g2 g3] unfolding if_not_P [OF neg] .
  from ev s(1,2) s1 out h2 g2 show ?thesis by auto
qed

text \<open>
  The claim as stated fails on the sample \<open>3/131072\<close>: the product is \<open>3/4\<close>, which rounds
  to 1 and is written as 0.
\<close>

theorem encoder_round_counterexample:
  "WriteToWAVFile \<lparr>m_frequency = 200, m_data = [3/131072]\<rparr> True 0 1 = Inr (Some [0])
   \<and> round (3/131072 * 32768 :: real) = 1"
  by (simp add: WriteToWAVFile_def convert_sample_def float_to_int16_def u32_def upt_rec round_def)

end
